theory Spec2Isabelle
  imports Complex_Main
begin

section \<open>The autocorrect engine of src/main.js\<close>

text \<open>
  Conventions of the embedding.
  \<^item> A JavaScript string is a list of code units, here \<open>string\<close>: the strings modelled
    are those of code units below 256 (Latin-1). \<open>length\<close> is \<open>.length\<close> and \<open>charAt\<close>
    returns the empty string, here \<open>None\<close>, out of range.
  \<^item> A JavaScript number that is always finite in this program (a length, a distance, a
    frequency score) is a \<open>real\<close> or a \<open>nat\<close>; the arithmetic is the exact one, the
    rounding of IEEE doubles is not modelled. Distances are multiples of one half and are
    exact in doubles.
  \<^item> A number that can be infinite or NaN (a confidence, the configured \<open>cacheSize\<close>) is
    a \<open>jsnum\<close>.
  \<^item> A JavaScript \<open>Map\<close> is an association list in insertion order with distinct keys:
    \<open>set\<close> on a present key replaces the value in place, on an absent key it appends.
  \<^item> Methods that mutate \<open>this\<close> take the engine and return the new engine. The events
    emitted are appended to the field \<open>emitted\<close>; what is printed is not modelled.
  \<^item> Of the configuration, \<open>cacheSize\<close> is any JavaScript number (a \<open>jsnum\<close>: the
    constructor validates nothing), \<open>dictionarySize\<close>, which is only handed to the word
    source, is an integer, and \<open>maxEditDistance\<close> is a finite number; the words of the
    external word source are strings.
\<close>

subsection \<open>Strings\<close>

definition charAt :: "string \<Rightarrow> nat \<Rightarrow> char option" where
  "charAt s i = (if i < length s then Some (s ! i) else None)"

text \<open>\<open>String.prototype.toLowerCase\<close> on strings of code units below 256. The capital
  letters among these code units are A to Z, \<open>0xC0\<close> to \<open>0xD6\<close> and \<open>0xD8\<close> to \<open>0xDE\<close>;
  each is mapped to the code unit 32 above it, and every other code unit is kept (\<open>0xD7\<close>,
  the multiplication sign, and \<open>0xDF\<close>, the sharp s, among them).\<close>

definition capitals :: string where
  "capitals = ''ABCDEFGHIJKLMNOPQRSTUVWXYZ'' @
       [CHR 0xC0, CHR 0xC1, CHR 0xC2, CHR 0xC3, CHR 0xC4, CHR 0xC5, CHR 0xC6, CHR 0xC7,
        CHR 0xC8, CHR 0xC9, CHR 0xCA, CHR 0xCB, CHR 0xCC, CHR 0xCD, CHR 0xCE, CHR 0xCF,
        CHR 0xD0, CHR 0xD1, CHR 0xD2, CHR 0xD3, CHR 0xD4, CHR 0xD5, CHR 0xD6, CHR 0xD8,
        CHR 0xD9, CHR 0xDA, CHR 0xDB, CHR 0xDC, CHR 0xDD, CHR 0xDE]"

definition smalls :: string where
  "smalls = ''abcdefghijklmnopqrstuvwxyz'' @
       [CHR 0xE0, CHR 0xE1, CHR 0xE2, CHR 0xE3, CHR 0xE4, CHR 0xE5, CHR 0xE6, CHR 0xE7,
        CHR 0xE8, CHR 0xE9, CHR 0xEA, CHR 0xEB, CHR 0xEC, CHR 0xED, CHR 0xEE, CHR 0xEF,
        CHR 0xF0, CHR 0xF1, CHR 0xF2, CHR 0xF3, CHR 0xF4, CHR 0xF5, CHR 0xF6, CHR 0xF8,
        CHR 0xF9, CHR 0xFA, CHR 0xFB, CHR 0xFC, CHR 0xFD, CHR 0xFE]"

definition toLowerCaseChar :: "char \<Rightarrow> char" where
  "toLowerCaseChar ch = (case map_of (zip capitals smalls) ch of Some l \<Rightarrow> l | None \<Rightarrow> ch)"

definition toLowerCase :: "string \<Rightarrow> string" where
  "toLowerCase s = map toLowerCaseChar s"

text \<open>The regular expression \<open>/^[a-z]+$/\<close>.\<close>

definition is_az :: "char \<Rightarrow> bool" where
  "is_az ch \<longleftrightarrow> ch \<in> set ''abcdefghijklmnopqrstuvwxyz''"

definition test_az_plus :: "string \<Rightarrow> bool" where
  "test_az_plus s \<longleftrightarrow> s \<noteq> [] \<and> list_all is_az s"

subsection \<open>The distance: \<open>_sift3Distance\<close>\<close>

text \<open>The parameter \<open>maxOffset\<close> has the default value 5, and no caller passes another.\<close>

definition maxOffset :: nat where
  "maxOffset = 5"

text \<open>The inner \<open>for\<close> loop, from \<open>i\<close> on: the pair \<open>(offset1, offset2)\<close> it leaves.
  Both offsets were reset to 0 before the loop.\<close>

function realign :: "string \<Rightarrow> string \<Rightarrow> nat \<Rightarrow> nat \<Rightarrow> nat \<times> nat" where
  "realign s1 s2 c i =
     (if i < maxOffset then
        (if c + i < length s1 \<and> charAt s1 (c + i) = charAt s2 c then (i, 0)
         else if c + i < length s2 \<and> charAt s1 c = charAt s2 (c + i) then (0, i)
         else realign s1 s2 c (i + 1))
      else (0, 0))"
  by pat_completeness auto
termination
  by (relation "measure (\<lambda>(s1, s2, c, i). maxOffset - i)") auto

text \<open>The \<open>while\<close> loop, from the state \<open>(c, offset1, offset2, lcs)\<close>: the final \<open>lcs\<close>.\<close>

function sift3_loop :: "string \<Rightarrow> string \<Rightarrow> nat \<Rightarrow> nat \<Rightarrow> nat \<Rightarrow> nat \<Rightarrow> nat" where
  "sift3_loop s1 s2 c offset1 offset2 lcs =
     (if c + offset1 < length s1 \<and> c + offset2 < length s2 then
        (if charAt s1 (c + offset1) = charAt s2 (c + offset2)
         then sift3_loop s1 s2 (c + 1) offset1 offset2 (lcs + 1)
         else sift3_loop s1 s2 (c + 1) (fst (realign s1 s2 c 0)) (snd (realign s1 s2 c 0)) lcs)
      else lcs)"
  by pat_completeness auto
termination
  by (relation "measure (\<lambda>(s1, s2, c, offset1, offset2, lcs). length s1 - c)") auto

definition sift3Distance :: "string \<Rightarrow> string \<Rightarrow> real" where
  "sift3Distance s1 s2 =
     (if s1 = [] then real (length s2)
      else if s2 = [] then real (length s1)
      else (real (length s1) + real (length s2)) / 2 - real (sift3_loop s1 s2 0 0 0 0))"

subsection \<open>JavaScript maps\<close>

text \<open>\<open>Map.prototype.has\<close>, \<open>get\<close>, \<open>set\<close> and \<open>delete\<close> on an association list in
  insertion order.\<close>

definition Map_has :: "('k \<times> 'v) list \<Rightarrow> 'k \<Rightarrow> bool" where
  "Map_has m k \<longleftrightarrow> k \<in> set (map fst m)"

definition Map_get :: "('k \<times> 'v) list \<Rightarrow> 'k \<Rightarrow> 'v option" where
  "Map_get m k = map_of m k"

fun Map_set :: "('k \<times> 'v) list \<Rightarrow> 'k \<Rightarrow> 'v \<Rightarrow> ('k \<times> 'v) list" where
  "Map_set [] k v = [(k, v)]"
| "Map_set ((k', v') # m) k v = (if k' = k then (k, v) # m else (k', v') # Map_set m k v)"

definition Map_delete :: "('k \<times> 'v) list \<Rightarrow> 'k \<Rightarrow> ('k \<times> 'v) list" where
  "Map_delete m k = filter (\<lambda>kv. fst kv \<noteq> k) m"

subsection \<open>The BK-tree\<close>

text \<open>\<open>class BKNode\<close>: the children are a \<open>Map\<close> from a distance to a node.\<close>

datatype bknode = BKNode (word: string) (frequency: real) (children: "(real \<times> bknode) list")

text \<open>\<open>_insertIntoBKTree(node, newNode)\<close>. The source mutates the tree in place; here the
  new tree is returned. \<open>insertIntoChildren\<close> is \<open>node.children.get(distance)\<close> followed by
  the recursive call on the child found, which stays at its place in the map, or by
  \<open>node.children.set(distance, newNode)\<close>, which appends.\<close>

fun insertIntoBKTree :: "bknode \<Rightarrow> bknode \<Rightarrow> bknode"
  and insertIntoChildren :: "(real \<times> bknode) list \<Rightarrow> real \<Rightarrow> bknode \<Rightarrow> (real \<times> bknode) list" where
  "insertIntoBKTree (BKNode w f cs) newNode =
     (if sift3Distance w (word newNode) = 0 then BKNode w f cs
      else BKNode w f (insertIntoChildren cs (sift3Distance w (word newNode)) newNode))"
| "insertIntoChildren [] distance newNode = [(distance, newNode)]"
| "insertIntoChildren ((key, childNode) # cs) distance newNode =
     (if key = distance then (key, insertIntoBKTree childNode newNode) # cs
      else (key, childNode) # insertIntoChildren cs distance newNode)"

text \<open>The number of nodes of a tree.\<close>

fun nodeCount :: "bknode \<Rightarrow> nat" where
  "nodeCount (BKNode w f cs) = Suc (sum_list (map (\<lambda>c. nodeCount (snd c)) cs))"

text \<open>The result records of \<open>_searchBKTree\<close>: \<open>{ word, distance, frequency }\<close>.\<close>

record candidate =
  c_word :: string
  c_distance :: real
  c_frequency :: real

text \<open>The \<open>while\<close> loop of \<open>_searchBKTree\<close>, from the work queue \<open>candidates\<close> and the
  \<open>results\<close> so far: \<open>shift\<close> takes the first node, \<open>push\<close> appends.\<close>

function searchLoop :: "string \<Rightarrow> real \<Rightarrow> bknode list \<Rightarrow> candidate list \<Rightarrow> candidate list" where
  "searchLoop queryWord maxDistance [] results = results"
| "searchLoop queryWord maxDistance (node # candidates) results =
     (let distance = sift3Distance (word node) queryWord;
          results' = (if distance \<le> maxDistance
                      then results @ [\<lparr>c_word = word node, c_distance = distance,
                                       c_frequency = frequency node\<rparr>]
                      else results);
          searchMin = distance - maxDistance;
          searchMax = distance + maxDistance
      in searchLoop queryWord maxDistance
           (candidates @ map snd (filter (\<lambda>c. fst c \<ge> searchMin \<and> fst c \<le> searchMax) (children node)))
           results')"
  by pat_completeness auto
termination
proof (relation "measure (\<lambda>(q, k, cands, res). sum_list (map nodeCount cands))", goal_cases)
  case 1
  show ?case by simp
next
  case (2 queryWord maxDistance node candidates results distance results' searchMin searchMax)
  have le: "sum_list (map nodeCount (map snd (filter P cs))) \<le> sum_list (map (\<lambda>c. nodeCount (snd c)) cs)"
    for P and cs :: "(real \<times> bknode) list"
    by (induction cs) auto
  have "sum_list (map nodeCount (map snd (filter P (children node)))) < nodeCount node" for P
    using le [of P "children node"] by (cases node) simp
  then show ?case by simp
qed

subsection \<open>Numbers that need not be finite\<close>

text \<open>The value of a JavaScript arithmetic expression whose result can be infinite or
  NaN. The sign of a zero is not modelled: every divisor of this program is a length or
  \<open>Math.log1p\<close> of a length, which is never the negative zero, so a zero divisor is read as
  the positive zero.\<close>

datatype jsnum = Num real | PosInf | NegInf | NaN

fun js_neg :: "jsnum \<Rightarrow> jsnum" where
  "js_neg (Num x) = Num (- x)"
| "js_neg PosInf = NegInf"
| "js_neg NegInf = PosInf"
| "js_neg NaN = NaN"

fun js_add :: "jsnum \<Rightarrow> jsnum \<Rightarrow> jsnum" where
  "js_add (Num x) (Num y) = Num (x + y)"
| "js_add NaN b = NaN"
| "js_add a NaN = NaN"
| "js_add PosInf NegInf = NaN"
| "js_add NegInf PosInf = NaN"
| "js_add PosInf b = PosInf"
| "js_add NegInf b = NegInf"
| "js_add (Num x) b = b"

definition js_sub :: "jsnum \<Rightarrow> jsnum \<Rightarrow> jsnum" where
  "js_sub a b = js_add a (js_neg b)"

fun js_mul :: "jsnum \<Rightarrow> jsnum \<Rightarrow> jsnum" where
  "js_mul (Num x) (Num y) = Num (x * y)"
| "js_mul NaN b = NaN"
| "js_mul a NaN = NaN"
| "js_mul (Num x) b = (if x = 0 then NaN else if 0 < x then b else js_neg b)"
| "js_mul a (Num y) = (if y = 0 then NaN else if 0 < y then a else js_neg a)"
| "js_mul PosInf b = b"
| "js_mul NegInf b = js_neg b"

fun js_div :: "jsnum \<Rightarrow> jsnum \<Rightarrow> jsnum" where
  "js_div (Num x) (Num y) =
     (if y = 0 then (if x = 0 then NaN else if 0 < x then PosInf else NegInf)
      else Num (x / y))"
| "js_div NaN b = NaN"
| "js_div a NaN = NaN"
| "js_div (Num x) b = Num 0"
| "js_div a (Num y) = (if y < 0 then js_neg a else a)"
| "js_div PosInf PosInf = NaN"
| "js_div PosInf NegInf = NaN"
| "js_div NegInf PosInf = NaN"
| "js_div NegInf NegInf = NaN"

text \<open>The comparisons \<open>a > 0\<close> and \<open>a >= b\<close> of JavaScript: false when an operand is NaN.\<close>

fun js_positive :: "jsnum \<Rightarrow> bool" where
  "js_positive (Num x) \<longleftrightarrow> 0 < x"
| "js_positive PosInf \<longleftrightarrow> True"
| "js_positive NegInf \<longleftrightarrow> False"
| "js_positive NaN \<longleftrightarrow> False"

fun js_ge :: "jsnum \<Rightarrow> jsnum \<Rightarrow> bool" where
  "js_ge (Num x) (Num y) \<longleftrightarrow> y \<le> x"
| "js_ge NaN b \<longleftrightarrow> False"
| "js_ge a NaN \<longleftrightarrow> False"
| "js_ge PosInf b \<longleftrightarrow> True"
| "js_ge a NegInf \<longleftrightarrow> True"
| "js_ge (Num x) PosInf \<longleftrightarrow> False"
| "js_ge NegInf (Num y) \<longleftrightarrow> False"
| "js_ge NegInf PosInf \<longleftrightarrow> False"

definition Math_log1p :: "real \<Rightarrow> jsnum" where
  "Math_log1p x = (if x < - 1 then NaN else if x = - 1 then NegInf else Num (ln (1 + x)))"

text \<open>\<open>Array.prototype.sort(comparefn)\<close>: a stable sort; \<open>a\<close> stays before \<open>b\<close> unless
  \<open>comparefn(a, b) > 0\<close>, and a NaN returned by \<open>comparefn\<close> counts as 0. For a consistent
  comparator every stable sort returns this list.\<close>

fun Array_insert :: "('a \<Rightarrow> 'a \<Rightarrow> jsnum) \<Rightarrow> 'a \<Rightarrow> 'a list \<Rightarrow> 'a list" where
  "Array_insert comparefn a [] = [a]"
| "Array_insert comparefn a (b # bs) =
     (if js_positive (comparefn a b) then b # Array_insert comparefn a bs else a # b # bs)"

definition Array_sort :: "('a \<Rightarrow> 'a \<Rightarrow> jsnum) \<Rightarrow> 'a list \<Rightarrow> 'a list" where
  "Array_sort comparefn xs = foldr (Array_insert comparefn) xs []"

subsection \<open>The engine\<close>

record config =
  dictionarySize :: int
  maxEditDistance :: real
  cacheSize :: jsnum

text \<open>The \<open>options\<close> of the constructor: each field may be absent.\<close>

record options =
  opt_dictionarySize :: "int option"
  opt_maxEditDistance :: "real option"
  opt_cacheSize :: "jsnum option"

text \<open>The outcome of the external \<open>words.getMostPopular\<close>: a list of words, or an exception.\<close>

datatype 'a outcome = Returns 'a | Throws

type_synonym wordsource = "int \<Rightarrow> string list outcome"

text \<open>The ranked records: \<open>{ ...candidate, confidence }\<close> on the search path, and
  \<open>{ word, distance: 0, confidence: 1.0 }\<close>, with no frequency, for an exact match.\<close>

record suggestion =
  s_word :: string
  s_distance :: real
  s_frequency :: "real option"
  confidence :: jsnum

text \<open>The events of the \<open>EventEmitter\<close>, with their payloads.\<close>

datatype event = DictionaryLoaded (wordCount: nat) | BKTreeBuilt (bkNodeCount: nat)

record engine =
  config :: config
  dictionary :: "(string \<times> real) list"
  maxFrequency :: nat
  bkTree :: "bknode option"
  cache :: "(string \<times> suggestion list) list"
  emitted :: "event list"

definition technicalTerms :: "string list" where
  "technicalTerms =
     [''javascript'', ''algorithm'', ''function'', ''variable'', ''console'', ''terminal'',
      ''autocorrect'', ''suggestion'', ''correction'', ''dictionary'', ''search'', ''fuzzy'',
      ''distance'', ''cache'', ''performance'', ''optimization'', ''implementation'',
      ''architecture'', ''efficient'', ''structure'', ''application'', ''system'',
      ''interface'', ''experience'', ''machine'', ''learning'', ''programming'',
      ''development'', ''software'', ''computer'', ''debugging'', ''testing'', ''hello'']"

text \<open>\<open>loadDictionary\<close>. When the word source throws, the \<open>catch\<close> only prints: no field
  has been written and no event is emitted.\<close>

definition loadDictionary :: "wordsource \<Rightarrow> engine \<Rightarrow> engine" where
  "loadDictionary getMostPopular e =
     (case getMostPopular (dictionarySize (config e)) of
        Throws \<Rightarrow> e
      | Returns popularWords \<Rightarrow>
          (let m = length popularWords;
               d1 = fold (\<lambda>(index, w) d.
                            if length w > 1 \<and> test_az_plus w
                            then Map_set d w (real m - real index) else d)
                         (enumerate 0 popularWords) (dictionary e);
               d2 = fold (\<lambda>term d. Map_set d term (real m * 1.2)) technicalTerms d1
           in e\<lparr>maxFrequency := m, dictionary := d2,
                emitted := emitted e @ [DictionaryLoaded (length d2)]\<rparr>))"

definition buildBKTree :: "engine \<Rightarrow> engine" where
  "buildBKTree e =
     (case dictionary e of
        [] \<Rightarrow> e
      | (firstWord, firstFreq) # it \<Rightarrow>
          e\<lparr>bkTree := Some (fold (\<lambda>(w, f) tree. insertIntoBKTree tree (BKNode w f [])) it
                                (BKNode firstWord firstFreq [])),
            emitted := emitted e @ [BKTreeBuilt (length (dictionary e))]\<rparr>)"

definition defaults :: "options \<Rightarrow> config" where
  "defaults opts =
     \<lparr>dictionarySize = (case opt_dictionarySize opts of None \<Rightarrow> 10000 | Some n \<Rightarrow> n),
      maxEditDistance = (case opt_maxEditDistance opts of None \<Rightarrow> 2 | Some k \<Rightarrow> k),
      cacheSize = (case opt_cacheSize opts of None \<Rightarrow> Num 1000 | Some n \<Rightarrow> n)\<rparr>"

text \<open>The constructor, with \<open>_initialize\<close>.\<close>

definition AutoCorrectEngine :: "wordsource \<Rightarrow> options \<Rightarrow> engine" where
  "AutoCorrectEngine getMostPopular opts =
     buildBKTree (loadDictionary getMostPopular
       \<lparr>config = defaults opts, dictionary = [], maxFrequency = 0, bkTree = None,
        cache = [], emitted = []\<rparr>)"

definition searchBKTree :: "engine \<Rightarrow> string \<Rightarrow> real \<Rightarrow> candidate list" where
  "searchBKTree e queryWord maxDistance =
     (case bkTree e of None \<Rightarrow> [] | Some tree \<Rightarrow> searchLoop queryWord maxDistance [tree] [])"

text \<open>The callback of \<open>candidates.map\<close> and the comparator of \<open>sort\<close> in \<open>getCorrections\<close>.\<close>

definition ranked :: "engine \<Rightarrow> string \<Rightarrow> candidate \<Rightarrow> suggestion" where
  "ranked e lowerCaseWord candidate =
     (let freqScore = js_div (Math_log1p (c_frequency candidate))
                             (Math_log1p (real (maxFrequency e)));
          distScore = js_sub (Num 1)
                        (js_div (Num (c_distance candidate))
                           (Num (real (max (length lowerCaseWord) (length (c_word candidate))))))
      in \<lparr>s_word = c_word candidate, s_distance = c_distance candidate,
          s_frequency = Some (c_frequency candidate),
          confidence = js_add (js_mul (Num 0.7) freqScore) (js_mul (Num 0.3) distScore)\<rparr>)"

definition byConfidence :: "suggestion \<Rightarrow> suggestion \<Rightarrow> jsnum" where
  "byConfidence a b = js_sub (confidence b) (confidence a)"

text \<open>\<open>getCorrections(word)\<close>: the list returned and the engine after the call.\<close>

definition getCorrections :: "engine \<Rightarrow> string \<Rightarrow> suggestion list \<times> engine" where
  "getCorrections e w =
     (let lowerCaseWord = toLowerCase w in
      case Map_get (cache e) lowerCaseWord of
        Some cached \<Rightarrow> (cached, e)
      | None \<Rightarrow>
          if Map_has (dictionary e) lowerCaseWord
          then ([\<lparr>s_word = w, s_distance = 0, s_frequency = None, confidence = Num 1\<rparr>], e)
          else
            (let candidates = searchBKTree e lowerCaseWord (maxEditDistance (config e));
                 rankedResults = take 5 (Array_sort byConfidence
                                           (map (ranked e lowerCaseWord) candidates));
                 cache1 = (if js_ge (Num (real (length (cache e)))) (cacheSize (config e))
                           then (case cache e of [] \<Rightarrow> []
                                 | (oldestKey, v) # rest \<Rightarrow> Map_delete (cache e) oldestKey)
                           else cache e)
             in (rankedResults, e\<lparr>cache := Map_set cache1 lowerCaseWord rankedResults\<rparr>)))"

text \<open>The engines a program can hold: a constructed one, after any number of queries.\<close>

inductive reachable :: "engine \<Rightarrow> bool" where
  constructed: "reachable (AutoCorrectEngine getMostPopular opts)"
| queried: "reachable e \<Longrightarrow> reachable (snd (getCorrections e w))"

subsection \<open>Notions used in the statements\<close>

text \<open>What the search path computes for a lowercase query, and the cache it stores into.\<close>

definition rankedResults :: "engine \<Rightarrow> string \<Rightarrow> suggestion list" where
  "rankedResults e lowerCaseWord =
     take 5 (Array_sort byConfidence
       (map (ranked e lowerCaseWord)
          (searchBKTree e lowerCaseWord (maxEditDistance (config e)))))"

definition evicted :: "engine \<Rightarrow> (string \<times> suggestion list) list" where
  "evicted e =
     (if js_ge (Num (real (length (cache e)))) (cacheSize (config e))
      then (case cache e of [] \<Rightarrow> [] | (oldestKey, v) # rest \<Rightarrow> Map_delete (cache e) oldestKey)
      else cache e)"

definition exactMatch :: "string \<Rightarrow> suggestion" where
  "exactMatch w = \<lparr>s_word = w, s_distance = 0, s_frequency = None, confidence = Num 1\<rparr>"

text \<open>In every reachable engine the cache is a map (its keys are distinct), no key of the
  cache is a word of the dictionary, and the value stored under a key is what the search
  path computes for that key.\<close>

definition cache_inv :: "engine \<Rightarrow> bool" where
  "cache_inv e \<longleftrightarrow>
     distinct (map fst (cache e)) \<and>
     list_all (\<lambda>kv. \<not> Map_has (dictionary e) (fst kv) \<and> snd kv = rankedResults e (fst kv)) (cache e)"

text \<open>The words and scores held by the nodes of a tree.\<close>

fun entries :: "bknode \<Rightarrow> (string \<times> real) list" where
  "entries (BKNode w f cs) = (w, f) # concat (map (\<lambda>c. entries (snd c)) cs)"

text \<open>A \<open>forEach\<close> that sets one key per accepted element.\<close>

definition setEach :: "('x \<Rightarrow> bool) \<Rightarrow> ('x \<Rightarrow> 'k) \<Rightarrow> ('x \<Rightarrow> 'v) \<Rightarrow> 'x list \<Rightarrow> ('k \<times> 'v) list
    \<Rightarrow> ('k \<times> 'v) list" where
  "setEach accept key val xs d = fold (\<lambda>x d. if accept x then Map_set d (key x) (val x) else d) xs d"

text \<open>The dictionary that \<open>loadDictionary\<close> builds from the words returned.\<close>

definition ingest :: "string list \<Rightarrow> (string \<times> real) list" where
  "ingest popularWords =
     setEach (\<lambda>t. True) id (\<lambda>t. real (length popularWords) * 1.2) technicalTerms
       (setEach (\<lambda>iw. length (snd iw) > 1 \<and> test_az_plus (snd iw)) snd
          (\<lambda>iw. real (length popularWords) - real (fst iw)) (enumerate 0 popularWords) [])"

text \<open>The tree that \<open>buildBKTree\<close> grows from a root and the remaining entries.\<close>

definition grow :: "(string \<times> real) list \<Rightarrow> bknode \<Rightarrow> bknode" where
  "grow it tree = fold (\<lambda>(w, f) tree. insertIntoBKTree tree (BKNode w f [])) it tree"

text \<open>The engine before \<open>_initialize\<close>, which is also the engine the constructor leaves
  when the word source throws.\<close>

definition fresh :: "options \<Rightarrow> engine" where
  "fresh opts = \<lparr>config = defaults opts, dictionary = [], maxFrequency = 0, bkTree = None,
                 cache = [], emitted = []\<rparr>"

text \<open>In a reachable engine every entry of the tree is an entry of the dictionary, and
  every word of the dictionary is made of the letters a to z and has a score of at least 0.\<close>

definition tree_inv :: "engine \<Rightarrow> bool" where
  "tree_inv e \<longleftrightarrow>
     (case bkTree e of None \<Rightarrow> True | Some tree \<Rightarrow> set (entries tree) \<subseteq> set (dictionary e)) \<and>
     list_all (\<lambda>wf. test_az_plus (fst wf) \<and> 0 \<le> snd wf) (dictionary e)"

text \<open>The record pushed for a node, and the nodes the pruned traversal reaches from a
  node: the node itself, and every child of a reached node whose branch key lies within
  \<open>maxDistance\<close> of the distance from that node's word to the query.\<close>

definition hit :: "string \<Rightarrow> bknode \<Rightarrow> candidate" where
  "hit queryWord node =
     \<lparr>c_word = word node, c_distance = sift3Distance (word node) queryWord,
      c_frequency = frequency node\<rparr>"

inductive visits :: "string \<Rightarrow> real \<Rightarrow> bknode \<Rightarrow> bknode \<Rightarrow> bool"
  for queryWord :: string and maxDistance :: real and node :: bknode where
  start: "visits queryWord maxDistance node node"
| child: "visits queryWord maxDistance node n \<Longrightarrow> (key, childNode) \<in> set (children n) \<Longrightarrow>
          sift3Distance (word n) queryWord - maxDistance \<le> key \<Longrightarrow>
          key \<le> sift3Distance (word n) queryWord + maxDistance \<Longrightarrow>
          visits queryWord maxDistance node childNode"

text \<open>A list of records in the order of non-increasing confidence: every record has a
  confidence greater than or equal to that of every later one, by the comparison \<open>>=\<close> of
  JavaScript.\<close>

definition nonIncreasing :: "suggestion list \<Rightarrow> bool" where
  "nonIncreasing rs \<longleftrightarrow> sorted_wrt (\<lambda>a b. js_ge (confidence a) (confidence b)) rs"

text \<open>The engine after a sequence of queries.\<close>

definition afterQueries :: "engine \<Rightarrow> string list \<Rightarrow> engine" where
  "afterQueries e ws = foldl (\<lambda>e w. snd (getCorrections e w)) e ws"

subsection \<open>Examples\<close>

text \<open>A word source that returns the first \<open>n\<close> of three words, one that throws, the
  engines constructed from them, and a tree of two words.\<close>

definition noOptions :: options where
  "noOptions = \<lparr>opt_dictionarySize = None, opt_maxEditDistance = None, opt_cacheSize = None\<rparr>"

definition popular :: wordsource where
  "popular n = Returns (take (nat n) [''the'', ''help'', ''hello''])"

definition failing :: wordsource where
  "failing n = Throws"

definition exampleEngine :: engine where
  "exampleEngine = AutoCorrectEngine popular noOptions"

definition failedEngine :: engine where
  "failedEngine = AutoCorrectEngine failing noOptions"

definition exampleTree :: bknode where
  "exampleTree = BKNode ''hello'' 1 [(3 / 2, BKNode ''help'' 1 [])]"

text \<open>Options that ask for no words, and for a cache of no entry.\<close>

definition zeroWords :: options where
  "zeroWords = \<lparr>opt_dictionarySize = Some 0, opt_maxEditDistance = None, opt_cacheSize = None\<rparr>"

definition zeroCache :: options where
  "zeroCache = \<lparr>opt_dictionarySize = None, opt_maxEditDistance = None, opt_cacheSize = Some (Num 0)\<rparr>"

definition emptyEngine :: engine where
  "emptyEngine = AutoCorrectEngine popular zeroWords"

definition uncachedEngine :: engine where
  "uncachedEngine = AutoCorrectEngine popular zeroCache"

text \<open>Options that ask for a cache of two entries, and for one of one and a half.\<close>

definition twoSlots :: options where
  "twoSlots = \<lparr>opt_dictionarySize = None, opt_maxEditDistance = None, opt_cacheSize = Some (Num 2)\<rparr>"

definition halfSlot :: options where
  "halfSlot = \<lparr>opt_dictionarySize = None, opt_maxEditDistance = None,
                opt_cacheSize = Some (Num (3 / 2))\<rparr>"

definition twoSlotEngine :: engine where
  "twoSlotEngine = AutoCorrectEngine popular twoSlots"

definition halfSlotEngine :: engine where
  "halfSlotEngine = AutoCorrectEngine popular halfSlot"

text \<open>A word source whose only word has one letter and is not ingested, so that every
  word of the dictionary has the same score, and the engine with a search radius of 5.\<close>

definition oneLetter :: wordsource where
  "oneLetter n = Returns (take (nat n) [''a''])"

definition wideSearch :: options where
  "wideSearch = \<lparr>opt_dictionarySize = None, opt_maxEditDistance = Some 5, opt_cacheSize = None\<rparr>"

definition wideEngine :: engine where
  "wideEngine = AutoCorrectEngine oneLetter wideSearch"

section \<open>Properties of the distance\<close>

declare sift3_loop.simps [simp del] realign.simps [simp del]

lemma sift3_loop_le:
  "sift3_loop s1 s2 c offset1 offset2 lcs \<le> lcs + (min (length s1) (length s2) - c)"
proof (induction s1 s2 c offset1 offset2 lcs rule: sift3_loop.induct)
  case (1 s1 s2 c offset1 offset2 lcs)
  show ?case
  proof (cases "c + offset1 < length s1 \<and> c + offset2 < length s2")
    case False
    then have "sift3_loop s1 s2 c offset1 offset2 lcs = lcs"
      by (subst sift3_loop.simps) auto
    then show ?thesis by simp
  next
    case inside: True
    show ?thesis
    proof (cases "charAt s1 (c + offset1) = charAt s2 (c + offset2)")
      case True
      with inside have "sift3_loop s1 s2 c offset1 offset2 lcs =
                        sift3_loop s1 s2 (c + 1) offset1 offset2 (lcs + 1)"
        by (subst sift3_loop.simps) simp
      with "1.IH"(1) [OF inside True] inside show ?thesis
        by (auto simp: min_def)
    next
      case False
      with inside have "sift3_loop s1 s2 c offset1 offset2 lcs =
                        sift3_loop s1 s2 (c + 1) (fst (realign s1 s2 c 0))
                          (snd (realign s1 s2 c 0)) lcs"
        by (subst sift3_loop.simps) simp
      with "1.IH"(2) [OF inside False] inside show ?thesis
        by (auto simp: min_def)
    qed
  qed
qed

lemma sift3_loop_same:
  "c \<le> length s \<Longrightarrow> sift3_loop s s c 0 0 lcs = lcs + (length s - c)"
proof (induction "length s - c" arbitrary: c lcs)
  case 0
  then show ?case by (subst sift3_loop.simps) simp
next
  case (Suc n)
  then have "c < length s" by simp
  moreover from Suc have "sift3_loop s s (c + 1) 0 0 (lcs + 1) = (lcs + 1) + (length s - (c + 1))"
    by (intro Suc.hyps(1)) simp_all
  ultimately show ?case
    by (subst sift3_loop.simps) simp
qed

lemma sift3Distance_nonneg: "0 \<le> sift3Distance a b"
proof -
  have "real (sift3_loop a b 0 0 0 0) \<le> real (min (length a) (length b))"
    using sift3_loop_le [of a b 0 0 0 0] by simp
  also have "\<dots> \<le> (real (length a) + real (length b)) / 2"
    by (simp add: min_def)
  finally show ?thesis
    by (simp add: sift3Distance_def)
qed

lemma sift3Distance_same: "sift3Distance s s = 0"
  using sift3_loop_same [of 0 s 0] by (simp add: sift3Distance_def)

text \<open>The distance is 0 only between equal strings: every step of the scan must have
  matched at offset 0.\<close>

lemma sift3_loop_full:
  assumes "length s1 = length s2" "take c s1 = take c s2" "c \<le> length s1"
    and "sift3_loop s1 s2 c 0 0 lcs = lcs + (length s1 - c)"
  shows "s1 = s2"
  using assms
proof (induction "length s1 - c" arbitrary: c lcs)
  case 0
  then show ?case by simp
next
  case (Suc n)
  then have lt: "c < length s1" "c < length s2" by simp_all
  show ?case
  proof (cases "charAt s1 c = charAt s2 c")
    case True
    with lt have eq: "s1 ! c = s2 ! c" by (simp add: charAt_def)
    have step: "sift3_loop s1 s2 c 0 0 lcs = sift3_loop s1 s2 (c + 1) 0 0 (lcs + 1)"
      using lt True by (subst sift3_loop.simps) simp
    have "take (c + 1) s1 = take (c + 1) s2"
      using lt eq Suc.prems(2) by (simp add: take_Suc_conv_app_nth)
    moreover have "sift3_loop s1 s2 (c + 1) 0 0 (lcs + 1) = (lcs + 1) + (length s1 - (c + 1))"
      using step Suc.prems(4) lt by simp
    ultimately show ?thesis
      using Suc.hyps(1) [of "c + 1" "lcs + 1"] Suc.hyps(2) Suc.prems(1) lt by simp
  next
    case False
    have "sift3_loop s1 s2 c 0 0 lcs =
          sift3_loop s1 s2 (c + 1) (fst (realign s1 s2 c 0)) (snd (realign s1 s2 c 0)) lcs"
      using lt False by (subst sift3_loop.simps) simp
    also have "\<dots> \<le> lcs + (min (length s1) (length s2) - (c + 1))"
      by (rule sift3_loop_le)
    also have "\<dots> < lcs + (length s1 - c)"
      using lt by simp
    finally show ?thesis using Suc.prems(4) by simp
  qed
qed

lemma sift3Distance_zero_iff: "sift3Distance a b = 0 \<longleftrightarrow> a = b"
proof
  assume zero: "sift3Distance a b = 0"
  show "a = b"
  proof (cases "a = [] \<or> b = []")
    case True
    with zero show ?thesis by (auto simp: sift3Distance_def split: if_splits)
  next
    case False
    with zero have sum: "real (sift3_loop a b 0 0 0 0) = (real (length a) + real (length b)) / 2"
      by (simp add: sift3Distance_def)
    have le: "sift3_loop a b 0 0 0 0 \<le> min (length a) (length b)"
      using sift3_loop_le [of a b 0 0 0 0] by simp
    have "length a = length b \<and> sift3_loop a b 0 0 0 0 = length a"
    proof -
      from le have "real (sift3_loop a b 0 0 0 0) \<le> real (length a)" 
        "real (sift3_loop a b 0 0 0 0) \<le> real (length b)" by simp_all
      moreover from sum have "2 * real (sift3_loop a b 0 0 0 0) = real (length a) + real (length b)"
        by simp
      ultimately have "real (length a) = real (length b)"
        by linarith
      moreover from this sum have "real (sift3_loop a b 0 0 0 0) = real (length a)"
        by simp
      ultimately show ?thesis by simp
    qed
    then show ?thesis
      using sift3_loop_full [of a b 0 0] by simp
  qed
next
  assume "a = b"
  then show "sift3Distance a b = 0" by (simp add: sift3Distance_same)
qed

text \<open>
  Claim C6. For all strings \<open>a\<close> and \<open>b\<close> the distance is at least 0; with an empty first
  string it is the length of the second, with an empty second string the length of the
  first; the distance from a string to itself is 0. In particular the distances of the
  empty string and \<open>cat\<close> are 3 both ways, and that of \<open>cat\<close> and \<open>cat\<close> is 0.
\<close>

theorem sift3Distance_contract:
  "0 \<le> sift3Distance a b
   \<and> sift3Distance [] b = real (length b)
   \<and> sift3Distance a [] = real (length a)
   \<and> sift3Distance s s = 0
   \<and> sift3Distance [] ''cat'' = 3 \<and> sift3Distance ''cat'' [] = 3
   \<and> sift3Distance ''cat'' ''cat'' = 0"
  by (simp add: sift3Distance_nonneg sift3Distance_same) (simp add: sift3Distance_def)

section \<open>Maps\<close>

lemma Map_has_iff: "Map_has m k \<longleftrightarrow> Map_get m k \<noteq> None"
  by (simp add: Map_has_def Map_get_def map_of_eq_None_iff)

lemma Map_get_set_same: "Map_get (Map_set m k v) k = Some v"
  by (induction m) (auto simp: Map_get_def)

lemma Map_set_absent: "k \<notin> set (map fst m) \<Longrightarrow> Map_set m k v = m @ [(k, v)]"
  by (induction m) auto

lemma Map_set_keys:
  "map fst (Map_set m k v) = (if k \<in> set (map fst m) then map fst m else map fst m @ [k])"
proof (induction m)
  case Nil
  show ?case by simp
next
  case (Cons kv m)
  show ?case
  proof (cases "fst kv = k")
    case True
    then show ?thesis by (cases kv) simp
  next
    case False
    with Cons show ?thesis by (cases kv) simp
  qed
qed

lemma Map_set_distinct: "distinct (map fst m) \<Longrightarrow> distinct (map fst (Map_set m k v))"
  by (simp add: Map_set_keys)

lemma Map_set_values: "set (Map_set m k v) \<subseteq> insert (k, v) (set m)"
  by (induction m) (auto split: if_splits)

lemma Map_delete_head:
  "distinct (map fst ((k, v) # m)) \<Longrightarrow> Map_delete ((k, v) # m) k = m"
  by (auto simp: Map_delete_def filter_id_conv rev_image_eqI)

lemma Map_delete_subset: "set (Map_delete m k) \<subseteq> set m"
  by (auto simp: Map_delete_def)

section \<open>The three paths of \<open>getCorrections\<close>\<close>

lemma getCorrections_hit:
  "Map_get (cache e) (toLowerCase w) = Some cached \<Longrightarrow> getCorrections e w = (cached, e)"
  by (simp add: getCorrections_def)

lemma getCorrections_exact:
  "Map_get (cache e) (toLowerCase w) = None \<Longrightarrow> Map_has (dictionary e) (toLowerCase w) \<Longrightarrow>
   getCorrections e w = ([exactMatch w], e)"
  by (simp add: getCorrections_def exactMatch_def)

lemma getCorrections_miss:
  "Map_get (cache e) (toLowerCase w) = None \<Longrightarrow> \<not> Map_has (dictionary e) (toLowerCase w) \<Longrightarrow>
   getCorrections e w =
     (rankedResults e (toLowerCase w),
      e\<lparr>cache := Map_set (evicted e) (toLowerCase w) (rankedResults e (toLowerCase w))\<rparr>)"
  by (simp add: getCorrections_def rankedResults_def evicted_def Let_def)

lemma getCorrections_cases:
  obtains (hit) cached where "Map_get (cache e) (toLowerCase w) = Some cached"
      "getCorrections e w = (cached, e)"
  | (exact) "Map_get (cache e) (toLowerCase w) = None" "Map_has (dictionary e) (toLowerCase w)"
      "getCorrections e w = ([exactMatch w], e)"
  | (miss) "Map_get (cache e) (toLowerCase w) = None" "\<not> Map_has (dictionary e) (toLowerCase w)"
      "getCorrections e w =
        (rankedResults e (toLowerCase w),
         e\<lparr>cache := Map_set (evicted e) (toLowerCase w) (rankedResults e (toLowerCase w))\<rparr>)"
  using getCorrections_hit getCorrections_exact getCorrections_miss
  by (cases "Map_get (cache e) (toLowerCase w)") blast+

text \<open>Only the cache is written by a query.\<close>

lemma getCorrections_frame:
  "config (snd (getCorrections e w)) = config e"
  "dictionary (snd (getCorrections e w)) = dictionary e"
  "maxFrequency (snd (getCorrections e w)) = maxFrequency e"
  "bkTree (snd (getCorrections e w)) = bkTree e"
  "emitted (snd (getCorrections e w)) = emitted e"
  by (cases rule: getCorrections_cases [of e w]; simp)+

lemma rankedResults_frame:
  "config e' = config e \<Longrightarrow> maxFrequency e' = maxFrequency e \<Longrightarrow> bkTree e' = bkTree e \<Longrightarrow>
   rankedResults e' q = rankedResults e q"
proof -
  assume "config e' = config e" "maxFrequency e' = maxFrequency e" "bkTree e' = bkTree e"
  moreover from this have "ranked e' q = ranked e q"
    by (intro ext) (simp add: ranked_def)
  ultimately show ?thesis
    by (simp add: rankedResults_def searchBKTree_def)
qed

lemma evicted_subset: "set (evicted e) \<subseteq> set (cache e)"
  using Map_delete_subset [of "cache e"] by (auto simp: evicted_def split: list.splits)

lemma evicted_distinct: "distinct (map fst (cache e)) \<Longrightarrow> distinct (map fst (evicted e))"
  by (auto simp: evicted_def Map_delete_def distinct_map_filter split: list.splits)

lemma loadDictionary_cache: "cache (loadDictionary src e) = cache e"
  by (simp add: loadDictionary_def Let_def split: outcome.splits)

lemma buildBKTree_cache: "cache (buildBKTree e) = cache e"
  by (simp add: buildBKTree_def split: list.splits prod.splits)

lemma AutoCorrectEngine_cache: "cache (AutoCorrectEngine src opts) = []"
  by (simp add: AutoCorrectEngine_def buildBKTree_cache loadDictionary_cache)

lemma cache_inv_step: "cache_inv e \<Longrightarrow> cache_inv (snd (getCorrections e w))"
proof (cases rule: getCorrections_cases [of e w])
  case (miss)
  assume inv: "cache_inv e"
  let ?lw = "toLowerCase w"
  let ?e' = "e\<lparr>cache := Map_set (evicted e) ?lw (rankedResults e ?lw)\<rparr>"
  have same: "rankedResults ?e' q = rankedResults e q" for q
    by (rule rankedResults_frame) simp_all
  have "set (cache ?e') \<subseteq> insert (?lw, rankedResults e ?lw) (set (cache e))"
    using Map_set_values [of "evicted e" ?lw "rankedResults e ?lw"] evicted_subset [of e] by auto
  with inv miss(2) have "list_all (\<lambda>kv. \<not> Map_has (dictionary ?e') (fst kv) \<and>
       snd kv = rankedResults ?e' (fst kv)) (cache ?e')"
    unfolding cache_inv_def list_all_iff same by auto
  moreover from inv have "distinct (map fst (cache ?e'))"
    by (simp add: cache_inv_def Map_set_distinct evicted_distinct)
  ultimately show ?thesis
    using miss(3) by (simp add: cache_inv_def)
qed simp_all

lemma reachable_cache_inv: "reachable e \<Longrightarrow> cache_inv e"
proof (induction rule: reachable.induct)
  case (constructed getMostPopular opts)
  show ?case by (simp add: cache_inv_def AutoCorrectEngine_cache)
next
  case (queried e w)
  then show ?case by (simp add: cache_inv_step)
qed

lemma cache_inv_lookup:
  assumes "cache_inv e" "Map_get (cache e) k = Some v"
  shows "\<not> Map_has (dictionary e) k" "v = rankedResults e k"
proof -
  from assms(2) have "(k, v) \<in> set (cache e)"
    by (simp add: Map_get_def map_of_SomeD)
  with assms(1) show "\<not> Map_has (dictionary e) k" "v = rankedResults e k"
    by (auto simp: cache_inv_def list_all_iff)
qed

text \<open>The three paths for a reachable engine: its cache holds no dictionary word.\<close>

lemma reachable_exact:
  assumes "reachable e" "Map_has (dictionary e) (toLowerCase w)"
  shows "getCorrections e w = ([exactMatch w], e)"
proof -
  have "Map_get (cache e) (toLowerCase w) = None"
  proof (cases "Map_get (cache e) (toLowerCase w)")
    case (Some v)
    with cache_inv_lookup(1) [OF reachable_cache_inv [OF assms(1)] Some] assms(2)
    show ?thesis by simp
  qed simp
  then show ?thesis using assms(2) by (rule getCorrections_exact)
qed

lemma reachable_search:
  assumes "reachable e" "\<not> Map_has (dictionary e) (toLowerCase w)"
  shows "fst (getCorrections e w) = rankedResults e (toLowerCase w)"
proof (cases rule: getCorrections_cases [of e w])
  case (hit cached)
  with cache_inv_lookup(2) [OF reachable_cache_inv [OF assms(1)] hit(1)] show ?thesis by simp
next
  case exact
  with assms(2) show ?thesis by simp
next
  case miss
  then show ?thesis by simp
qed

section \<open>The dictionary and the tree of a constructed engine\<close>

lemma nodeCount_entries: "nodeCount t = length (entries t)"
proof (induction t)
  case (BKNode w f cs)
  have "sum_list (map (\<lambda>c. nodeCount (snd c)) cs)
          = sum_list (map (\<lambda>c. length (entries (snd c))) cs)"
    using BKNode.IH by (intro arg_cong [where f = sum_list] map_cong refl) (auto simp: snds.simps)
  then show ?case
    by (simp add: length_concat comp_def)
qed

text \<open>Insertion keeps every entry, and adds those of the new node unless its word is
  already in the tree.\<close>

lemma insert_entries_subset:
  "set (entries (insertIntoBKTree t n)) \<subseteq> set (entries t) \<union> set (entries n)"
  "(\<Union>c \<in> set (insertIntoChildren cs d n). set (entries (snd c)))
     \<subseteq> (\<Union>c \<in> set cs. set (entries (snd c))) \<union> set (entries n)"
  by (induction t n and cs d n rule: insertIntoBKTree_insertIntoChildren.induct) auto

lemma insert_entries_new:
  "word n \<notin> fst ` set (entries t) \<Longrightarrow>
     length (entries (insertIntoBKTree t n)) = length (entries t) + length (entries n)"
  "word n \<notin> (\<Union>c \<in> set cs. fst ` set (entries (snd c))) \<Longrightarrow>
     length (concat (map (\<lambda>c. entries (snd c)) (insertIntoChildren cs d n)))
       = length (concat (map (\<lambda>c. entries (snd c)) cs)) + length (entries n)"
proof (induction t n and cs d n rule: insertIntoBKTree_insertIntoChildren.induct)
  case (1 w f cs newNode)
  from "1.prems" have "w \<noteq> word newNode"
    by auto
  then have "sift3Distance w (word newNode) \<noteq> 0"
    by (simp add: sift3Distance_zero_iff)
  moreover from "1.prems" have "word newNode \<notin> (\<Union>c \<in> set cs. fst ` set (entries (snd c)))"
    by auto
  ultimately show ?case
    using "1.IH" by simp
next
  case (2 distance newNode)
  show ?case by simp
next
  case (3 key childNode cs distance newNode)
  then show ?case by auto
qed

lemma setEach_Nil: "setEach accept key val [] d = d"
  by (simp add: setEach_def)

lemma setEach_Cons:
  "setEach accept key val (x # xs) d =
     setEach accept key val xs (if accept x then Map_set d (key x) (val x) else d)"
  by (simp add: setEach_def)

lemma Map_set_keys_set: "fst ` set (Map_set m k v) = insert k (fst ` set m)"
  using arg_cong [OF Map_set_keys [of m k v], of set] by (auto split: if_splits)

lemma setEach_keys:
  "fst ` set (setEach accept key val xs d) = fst ` set d \<union> key ` {x \<in> set xs. accept x}"
proof (induction xs arbitrary: d)
  case Nil
  show ?case by (simp add: setEach_Nil)
next
  case (Cons x xs)
  show ?case
    unfolding setEach_Cons Cons.IH by (cases "accept x") (auto simp: Map_set_keys_set)
qed

lemma setEach_distinct:
  "distinct (map fst d) \<Longrightarrow> distinct (map fst (setEach accept key val xs d))"
  by (induction xs arbitrary: d) (simp_all add: setEach_Nil setEach_Cons Map_set_distinct)

lemma Map_set_all: "list_all P d \<Longrightarrow> P (k, v) \<Longrightarrow> list_all P (Map_set d k v)"
  using Map_set_values [of d k v] by (auto simp: list_all_iff)

lemma setEach_all:
  "list_all P d \<Longrightarrow> (\<And>x. x \<in> set xs \<Longrightarrow> accept x \<Longrightarrow> P (key x, val x)) \<Longrightarrow>
   list_all P (setEach accept key val xs d)"
  by (induction xs arbitrary: d) (simp_all add: setEach_Nil setEach_Cons Map_set_all)

lemma loadDictionary_Returns:
  assumes "getMostPopular (dictionarySize (config e)) = Returns ws" "dictionary e = []"
  shows "loadDictionary getMostPopular e =
           e\<lparr>maxFrequency := length ws, dictionary := ingest ws,
             emitted := emitted e @ [DictionaryLoaded (length (ingest ws))]\<rparr>"
proof -
  have "(\<lambda>(index, w) d. if length w > 1 \<and> test_az_plus w
                         then Map_set d w (real (length ws) - real index) else d)
        = (\<lambda>iw d. if length (snd iw) > 1 \<and> test_az_plus (snd iw)
                   then Map_set d (snd iw) (real (length ws) - real (fst iw)) else d)"
    by (auto simp: fun_eq_iff)
  with assms show ?thesis
    by (simp add: loadDictionary_def ingest_def setEach_def Let_def)
qed

lemma loadDictionary_Throws:
  "getMostPopular (dictionarySize (config e)) = Throws \<Longrightarrow> loadDictionary getMostPopular e = e"
  by (simp add: loadDictionary_def)

lemma technicalTerms_az: "list_all test_az_plus technicalTerms"
  by (simp add: technicalTerms_def test_az_plus_def is_az_def)

lemma ingest_keys:
  "fst ` set (ingest ws) = {w \<in> set ws. length w > 1 \<and> test_az_plus w} \<union> set technicalTerms"
proof -
  have "snd ` {x \<in> set (enumerate 0 ws). length (snd x) > 1 \<and> test_az_plus (snd x)}
        = {w \<in> set ws. length w > 1 \<and> test_az_plus w}" (is "?L = ?R")
  proof (intro set_eqI iffI)
    fix w assume "w \<in> ?L"
    then show "w \<in> ?R"
      by (auto simp: in_set_enumerate_eq)
  next
    fix w assume "w \<in> ?R"
    then obtain i where "i < length ws" "ws ! i = w" "length w > 1 \<and> test_az_plus w"
      by (auto simp: in_set_conv_nth)
    then have "(i, w) \<in> {x \<in> set (enumerate 0 ws). length (snd x) > 1 \<and> test_az_plus (snd x)}"
      by (simp add: in_set_enumerate_eq)
    then show "w \<in> ?L"
      by (rule rev_image_eqI) simp
  qed
  then show ?thesis
    by (simp add: ingest_def setEach_keys)
qed

lemma ingest_distinct: "distinct (map fst (ingest ws))"
  by (simp add: ingest_def setEach_distinct)

lemma ingest_all: "list_all (\<lambda>wf. test_az_plus (fst wf) \<and> 0 \<le> snd wf) (ingest ws)"
  unfolding ingest_def
proof (intro setEach_all, goal_cases)
  case 1
  show ?case by simp
next
  case (2 iw)
  from 2(1) have "fst iw < length ws"
    by (simp add: in_set_enumerate_eq)
  with 2 show ?case by simp
next
  case (3 t)
  with technicalTerms_az show ?case
    by (simp add: list_all_iff)
qed

lemma ingest_not_Nil: "ingest ws \<noteq> []"
proof -
  have "''hello'' \<in> fst ` set (ingest ws)"
    unfolding ingest_keys by (simp add: technicalTerms_def)
  then show ?thesis by auto
qed

lemma grow_simps:
  "grow [] tree = tree"
  "grow ((w, f) # it) tree = grow it (insertIntoBKTree tree (BKNode w f []))"
  by (simp_all add: grow_def)

lemma grow_entries_subset: "set (entries (grow it tree)) \<subseteq> set (entries tree) \<union> set it"
proof (induction it arbitrary: tree)
  case Nil
  show ?case by (simp add: grow_simps)
next
  case (Cons wf it)
  obtain w f where wf: "wf = (w, f)" by (cases wf)
  have "set (entries (grow it (insertIntoBKTree tree (BKNode w f []))))
        \<subseteq> set (entries (insertIntoBKTree tree (BKNode w f []))) \<union> set it"
    by (rule Cons.IH)
  also have "\<dots> \<subseteq> (set (entries tree) \<union> set (entries (BKNode w f []))) \<union> set it"
    using insert_entries_subset(1) [of tree "BKNode w f []"] by auto
  finally show ?case
    by (auto simp: wf grow_simps)
qed

lemma grow_length:
  "distinct (map fst it) \<Longrightarrow> fst ` set it \<inter> fst ` set (entries tree) = {} \<Longrightarrow>
   length (entries (grow it tree)) = length (entries tree) + length it"
proof (induction it arbitrary: tree)
  case Nil
  show ?case by (simp add: grow_simps)
next
  case (Cons wf it)
  obtain w f where wf: "wf = (w, f)" by (cases wf)
  let ?t = "insertIntoBKTree tree (BKNode w f [])"
  from Cons.prems(2) have new: "word (BKNode w f []) \<notin> fst ` set (entries tree)"
    by (auto simp: wf)
  have "fst ` set (entries ?t) \<subseteq> fst ` set (entries tree) \<union> {w}"
    using insert_entries_subset(1) [of tree "BKNode w f []"] by auto
  moreover from Cons.prems have "fst ` set it \<inter> (fst ` set (entries tree) \<union> {w}) = {}"
    by (auto simp: wf)
  ultimately have "fst ` set it \<inter> fst ` set (entries ?t) = {}"
    by blast
  moreover from Cons.prems(1) have "distinct (map fst it)"
    by simp
  ultimately have "length (entries (grow it ?t)) = length (entries ?t) + length it"
    by (rule Cons.IH [rotated])
  with insert_entries_new(1) [OF new] show ?case
    by (simp add: wf grow_simps)
qed

lemma buildBKTree_Cons:
  "dictionary e = (firstWord, firstFreq) # it \<Longrightarrow>
   buildBKTree e = e\<lparr>bkTree := Some (grow it (BKNode firstWord firstFreq [])),
                     emitted := emitted e @ [BKTreeBuilt (length (dictionary e))]\<rparr>"
  by (simp add: buildBKTree_def grow_def)

lemma buildBKTree_Nil: "dictionary e = [] \<Longrightarrow> buildBKTree e = e"
  by (simp add: buildBKTree_def)

text \<open>The two outcomes of the constructor.\<close>

lemma AutoCorrectEngine_Throws:
  "getMostPopular (dictionarySize (defaults opts)) = Throws \<Longrightarrow>
   AutoCorrectEngine getMostPopular opts = fresh opts"
  by (simp add: AutoCorrectEngine_def fresh_def loadDictionary_Throws buildBKTree_Nil)

lemma AutoCorrectEngine_Returns:
  assumes "getMostPopular (dictionarySize (defaults opts)) = Returns ws"
  shows "AutoCorrectEngine getMostPopular opts =
           \<lparr>config = defaults opts, dictionary = ingest ws, maxFrequency = length ws,
            bkTree = Some (grow (tl (ingest ws))
                             (BKNode (fst (hd (ingest ws))) (snd (hd (ingest ws))) [])),
            cache = [],
            emitted = [DictionaryLoaded (length (ingest ws)), BKTreeBuilt (length (ingest ws))]\<rparr>"
proof -
  obtain w f it where split: "ingest ws = (w, f) # it"
    using ingest_not_Nil [of ws] by (cases "ingest ws") auto
  have "loadDictionary getMostPopular (fresh opts) =
          (fresh opts)\<lparr>maxFrequency := length ws, dictionary := ingest ws,
             emitted := emitted (fresh opts) @ [DictionaryLoaded (length (ingest ws))]\<rparr>"
    using assms by (intro loadDictionary_Returns) (simp_all add: fresh_def)
  then show ?thesis
    unfolding AutoCorrectEngine_def fresh_def [symmetric]
    by (simp add: buildBKTree_Cons [where it = it and firstWord = w and firstFreq = f] split fresh_def)
qed

lemma AutoCorrectEngine_tree_inv: "tree_inv (AutoCorrectEngine getMostPopular opts)"
proof (cases "getMostPopular (dictionarySize (defaults opts))")
  case (Returns ws)
  obtain w f it where split: "ingest ws = (w, f) # it"
    using ingest_not_Nil [of ws] by (cases "ingest ws") auto
  have "set (entries (grow it (BKNode w f []))) \<subseteq> set (ingest ws)"
    using grow_entries_subset [of it "BKNode w f []"] by (auto simp: split)
  then show ?thesis
    using ingest_all [of ws] AutoCorrectEngine_Returns [of getMostPopular opts ws] Returns
    by (simp add: tree_inv_def split)
next
  case Throws
  then show ?thesis
    by (simp add: AutoCorrectEngine_Throws fresh_def tree_inv_def)
qed

lemma reachable_tree_inv: "reachable e \<Longrightarrow> tree_inv e"
proof (induction rule: reachable.induct)
  case (constructed getMostPopular opts)
  show ?case by (rule AutoCorrectEngine_tree_inv)
next
  case (queried e w)
  from queried.IH show ?case unfolding tree_inv_def getCorrections_frame .
qed

section \<open>The search\<close>

declare searchLoop.simps [simp del]

lemma visits_below:
  assumes "visits q k childNode n" "(key, childNode) \<in> set (children node)"
    "sift3Distance (word node) q - k \<le> key" "key \<le> sift3Distance (word node) q + k"
  shows "visits q k node n"
  using assms
proof (induction rule: visits.induct)
  case start
  then show ?case
    using visits.child [OF visits.start] by blast
next
  case (child n key' c)
  then show ?case
    using visits.child by blast
qed

lemma visits_unfold:
  "visits q k node n \<longleftrightarrow>
     n = node \<or>
     (\<exists>c \<in> set (filter (\<lambda>c. sift3Distance (word node) q - k \<le> fst c
                              \<and> fst c \<le> sift3Distance (word node) q + k) (children node)).
        visits q k (snd c) n)"
  (is "?L \<longleftrightarrow> ?R")
proof
  assume ?L
  then show ?R
  proof (induction rule: visits.induct)
    case start
    show ?case by simp
  next
    case (child n key c)
    from child.IH show ?case
    proof
      assume "n = node"
      with child.hyps show ?thesis
        by (intro disjI2 bexI [where x = "(key, c)"]) (auto intro: visits.start)
    next
      assume "\<exists>c \<in> set (filter (\<lambda>c. sift3Distance (word node) q - k \<le> fst c
                              \<and> fst c \<le> sift3Distance (word node) q + k) (children node)).
                 visits q k (snd c) n"
      then obtain c' where "c' \<in> set (filter (\<lambda>c. sift3Distance (word node) q - k \<le> fst c
            \<and> fst c \<le> sift3Distance (word node) q + k) (children node))" "visits q k (snd c') n"
        by blast
      with child.hyps show ?thesis
        by (intro disjI2 bexI [where x = c']) (auto intro: visits.child)
    qed
  qed
next
  assume ?R
  then show ?L
  proof
    assume "n = node"
    then show ?thesis by (simp add: visits.start)
  next
    assume "\<exists>c \<in> set (filter (\<lambda>c. sift3Distance (word node) q - k \<le> fst c
                              \<and> fst c \<le> sift3Distance (word node) q + k) (children node)).
               visits q k (snd c) n"
    then obtain key c where "(key, c) \<in> set (children node)"
        "sift3Distance (word node) q - k \<le> key" "key \<le> sift3Distance (word node) q + k"
        "visits q k c n"
      by auto
    then show ?thesis
      using visits_below by blast
  qed
qed

lemma searchLoop_step:
  "searchLoop q k (node # candidates) results =
     searchLoop q k
       (candidates @ map snd (filter (\<lambda>c. sift3Distance (word node) q - k \<le> fst c
                                          \<and> fst c \<le> sift3Distance (word node) q + k) (children node)))
       (if sift3Distance (word node) q \<le> k then results @ [hit q node] else results)"
  by (subst searchLoop.simps) (simp add: Let_def hit_def)

lemma searchLoop_set:
  "set (searchLoop q k queue results) =
     set results \<union>
     {hit q n | n. (\<exists>m \<in> set queue. visits q k m n) \<and> sift3Distance (word n) q \<le> k}"
proof (induction q k queue results rule: searchLoop.induct)
  case (1 q k results)
  show ?case by (simp add: searchLoop.simps)
next
  case (2 q k node candidates results)
  let ?kids = "filter (\<lambda>c. sift3Distance (word node) q - k \<le> fst c
                         \<and> fst c \<le> sift3Distance (word node) q + k) (children node)"
  let ?results' = "if sift3Distance (word node) q \<le> k then results @ [hit q node] else results"
  have IH: "set (searchLoop q k (candidates @ map snd ?kids) ?results') =
     set ?results' \<union>
     {hit q n | n. (\<exists>m \<in> set (candidates @ map snd ?kids). visits q k m n)
                   \<and> sift3Distance (word n) q \<le> k}"
    using "2.IH" [OF refl refl refl refl] unfolding hit_def .
  have reach: "(\<exists>m \<in> set (node # candidates). visits q k m n) \<longleftrightarrow>
               n = node \<or> (\<exists>m \<in> set (candidates @ map snd ?kids). visits q k m n)" for n
  proof -
    have a: "visits q k node n \<longleftrightarrow> n = node \<or> (\<exists>c \<in> set ?kids. visits q k (snd c) n)"
      by (rule visits_unfold)
    have b: "(\<exists>m \<in> set (candidates @ map snd ?kids). visits q k m n) \<longleftrightarrow>
             (\<exists>m \<in> set candidates. visits q k m n) \<or> (\<exists>c \<in> set ?kids. visits q k (snd c) n)"
      by (simp only: set_append set_map bex_Un bex_simps)
    have c: "(\<exists>m \<in> set (node # candidates). visits q k m n) \<longleftrightarrow>
             visits q k node n \<or> (\<exists>m \<in> set candidates. visits q k m n)"
      by simp
    show ?thesis
      unfolding b c using a by blast
  qed
  show ?case
    unfolding searchLoop_step IH reach by auto
qed

lemma searchLoop_entries:
  assumes "visits q k tree n"
  shows "(word n, frequency n) \<in> set (entries tree)"
  using assms
proof (induction rule: visits.induct)
  case start
  show ?case by (cases tree) simp
next
  case (child n key c)
  have "set (entries c) \<subseteq> set (entries n)"
    using child.hyps(2) by (cases n) force
  moreover have "(word c, frequency c) \<in> set (entries c)"
    by (cases c) simp
  moreover have "set (entries n) \<subseteq> set (entries tree)"
    using child.hyps(1)
  proof (induction rule: visits.induct)
    case start
    show ?case by simp
  next
    case (child n' key' c')
    have "set (entries c') \<subseteq> set (entries n')"
      using child.hyps(2) by (cases n') force
    with child.IH show ?case by simp
  qed
  ultimately show ?case by auto
qed

text \<open>
  Claim C4. For every tree and every query, the search takes nodes from the front of a
  work queue that starts with the root and appends to its back. A node taken from the
  queue is added to the results exactly when the distance \<open>d\<close> from its word to the query
  is at most \<open>maxDistance\<close>, and a child of it is appended to the queue exactly when its
  branch key, as stored at insertion, lies in \<open>[d - maxDistance, d + maxDistance]\<close>.
  Hence the records returned are those of the nodes the pruned traversal reaches whose
  distance is at most \<open>maxDistance\<close>: each is a word of the tree with its distance to the
  query, which is at most \<open>maxDistance\<close>.
\<close>

theorem searchBKTree_traversal:
  "searchLoop q k [] results = results
   \<and> searchLoop q k (node # queue) results =
       searchLoop q k
         (queue @ map snd (filter (\<lambda>c. sift3Distance (word node) q - k \<le> fst c
                                        \<and> fst c \<le> sift3Distance (word node) q + k) (children node)))
         (if sift3Distance (word node) q \<le> k then results @ [hit q node] else results)
   \<and> searchBKTree (e\<lparr>bkTree := Some tree\<rparr>) q k = searchLoop q k [tree] []
   \<and> searchBKTree (e\<lparr>bkTree := None\<rparr>) q k = []
   \<and> set (searchLoop q k [tree] []) =
       {hit q n | n. visits q k tree n \<and> sift3Distance (word n) q \<le> k}
   \<and> (\<forall>c \<in> set (searchLoop q k [tree] []).
         (c_word c, c_frequency c) \<in> set (entries tree)
         \<and> c_distance c = sift3Distance (c_word c) q \<and> c_distance c \<le> k)"
proof -
  have results: "set (searchLoop q k [tree] []) =
          {hit q n | n. visits q k tree n \<and> sift3Distance (word n) q \<le> k}"
    by (simp add: searchLoop_set)
  have sound: "\<forall>c \<in> set (searchLoop q k [tree] []).
         (c_word c, c_frequency c) \<in> set (entries tree)
         \<and> c_distance c = sift3Distance (c_word c) q \<and> c_distance c \<le> k"
    unfolding results by (auto simp: hit_def searchLoop_entries)
  have some: "searchBKTree (e\<lparr>bkTree := Some tree\<rparr>) q k = searchLoop q k [tree] []"
    and none: "searchBKTree (e\<lparr>bkTree := None\<rparr>) q k = []"
    by (simp_all add: searchBKTree_def)
  show ?thesis
    by (intro conjI searchLoop.simps(1) searchLoop_step some none results sound)
qed


theorem searchBKTree_traversal_witness:
  "hit ''helo'' exampleTree \<in> set (searchLoop ''helo'' 2 [exampleTree] [])
   \<and> (c_word (hit ''helo'' exampleTree), c_frequency (hit ''helo'' exampleTree))
        \<in> set (entries exampleTree)
   \<and> c_distance (hit ''helo'' exampleTree) = sift3Distance (c_word (hit ''helo'' exampleTree)) ''helo''
   \<and> c_distance (hit ''helo'' exampleTree) \<le> 2"
proof -
  note t = searchBKTree_traversal [where q = "''helo''" and k = 2 and tree = exampleTree]
  have "sift3Distance (word exampleTree) ''helo'' \<le> 2"
    by (simp add: exampleTree_def sift3Distance_def sift3_loop.simps realign.simps charAt_def
        maxOffset_def)
  then have "hit ''helo'' exampleTree
        \<in> {hit ''helo'' n | n. visits ''helo'' 2 exampleTree n \<and> sift3Distance (word n) ''helo'' \<le> 2}"
    using visits.start [of "''helo''" 2 exampleTree] by blast
  then have "hit ''helo'' exampleTree \<in> set (searchLoop ''helo'' 2 [exampleTree] [])"
    unfolding t [THEN conjunct2, THEN conjunct2, THEN conjunct2, THEN conjunct2, THEN conjunct1] .
  then show ?thesis
    using t [THEN conjunct2, THEN conjunct2, THEN conjunct2, THEN conjunct2, THEN conjunct2]
    by blast
qed

section \<open>Insertion\<close>

lemma insertIntoChildren_absent:
  "Map_get cs d = None \<Longrightarrow> insertIntoChildren cs d n = cs @ [(d, n)]"
  by (induction cs) (auto simp: Map_get_def split: if_splits)

lemma insertIntoChildren_present:
  "Map_get cs d = Some childNode \<Longrightarrow>
   \<exists>before after. cs = before @ (d, childNode) # after \<and> d \<notin> fst ` set before \<and>
     insertIntoChildren cs d n = before @ (d, insertIntoBKTree childNode n) # after"
proof (induction cs)
  case Nil
  then show ?case by (simp add: Map_get_def)
next
  case (Cons c cs)
  obtain key ch where c: "c = (key, ch)" by (cases c)
  show ?case
  proof (cases "key = d")
    case True
    with Cons.prems c have "ch = childNode"
      by (simp add: Map_get_def)
    with True c show ?thesis
      by (intro exI [where x = "[]"] exI [where x = cs]) simp
  next
    case False
    with Cons.prems c have "Map_get cs d = Some childNode"
      by (simp add: Map_get_def)
    from Cons.IH [OF this] obtain before after where
      "cs = before @ (d, childNode) # after" "d \<notin> fst ` set before"
      "insertIntoChildren cs d n = before @ (d, insertIntoBKTree childNode n) # after"
      by blast
    with False c show ?thesis
      by (intro exI [where x = "(key, ch) # before"] exI [where x = after]) simp
  qed
qed

text \<open>
  Claim C5. Inserting a new node into a tree computes at the root, and then at every node
  it descends to, the distance \<open>d\<close> from that node's word to the new word. If \<open>d\<close> is 0, which
  happens exactly when the two words are equal, the new node is discarded and the tree is
  unchanged. Otherwise, if the node has a child under the key \<open>d\<close>, the insertion continues
  in that child, which stays at its place among the children; if it has none, the new node
  becomes the last child, under the key \<open>d\<close>.
\<close>

theorem insertIntoBKTree_cases:
  "(sift3Distance w (word newNode) = 0 \<longrightarrow>
      insertIntoBKTree (BKNode w f cs) newNode = BKNode w f cs)
   \<and> (sift3Distance w (word newNode) \<noteq> 0 \<longrightarrow> Map_get cs (sift3Distance w (word newNode)) = None \<longrightarrow>
        insertIntoBKTree (BKNode w f cs) newNode
          = BKNode w f (cs @ [(sift3Distance w (word newNode), newNode)]))
   \<and> (sift3Distance w (word newNode) \<noteq> 0 \<longrightarrow>
        Map_get cs (sift3Distance w (word newNode)) = Some childNode \<longrightarrow>
        (\<exists>before after.
           cs = before @ (sift3Distance w (word newNode), childNode) # after
           \<and> sift3Distance w (word newNode) \<notin> fst ` set before
           \<and> insertIntoBKTree (BKNode w f cs) newNode
               = BKNode w f (before @ (sift3Distance w (word newNode),
                                        insertIntoBKTree childNode newNode) # after)))
   \<and> (sift3Distance w (word newNode) = 0 \<longleftrightarrow> w = word newNode)"
  using insertIntoChildren_present [of cs "sift3Distance w (word newNode)" childNode newNode]
  by (simp add: insertIntoChildren_absent sift3Distance_zero_iff)

theorem insertIntoBKTree_cases_witness:
  "sift3Distance ''hello'' (word (BKNode ''hello'' 5 [])) = 0
   \<and> insertIntoBKTree (BKNode ''hello'' 1 []) (BKNode ''hello'' 5 []) = BKNode ''hello'' 1 []
   \<and> sift3Distance ''hello'' (word (BKNode ''help'' 1 [])) = 3 / 2
   \<and> Map_get [] (sift3Distance ''hello'' (word (BKNode ''help'' 1 []))) = (None :: bknode option)
   \<and> insertIntoBKTree (BKNode ''hello'' 1 []) (BKNode ''help'' 1 []) = exampleTree
   \<and> sift3Distance ''hello'' (word (BKNode ''helo'' 2 [])) = 3 / 2
   \<and> Map_get (children exampleTree) (sift3Distance ''hello'' (word (BKNode ''helo'' 2 [])))
        = Some (BKNode ''help'' 1 [])
   \<and> insertIntoBKTree exampleTree (BKNode ''helo'' 2 [])
        = BKNode ''hello'' 1
            [(3 / 2, insertIntoBKTree (BKNode ''help'' 1 []) (BKNode ''helo'' 2 []))]"
proof -
  have d0: "sift3Distance ''hello'' (word (BKNode ''hello'' 5 [])) = 0"
    by (simp add: sift3Distance_same)
  have d1: "sift3Distance ''hello'' (word (BKNode ''help'' 1 [])) = 3 / 2"
    by (simp add: sift3Distance_def sift3_loop.simps realign.simps charAt_def maxOffset_def)
  have d2: "sift3Distance ''hello'' (word (BKNode ''helo'' 2 [])) = 3 / 2"
    by (simp add: sift3Distance_def sift3_loop.simps realign.simps charAt_def maxOffset_def)
  have n1: "Map_get [] (sift3Distance ''hello'' (word (BKNode ''help'' 1 []))) = (None :: bknode option)"
    by (simp add: Map_get_def)
  have s2: "Map_get [(3 / 2, BKNode ''help'' 1 [])] (sift3Distance ''hello'' (word (BKNode ''helo'' 2 [])))
              = Some (BKNode ''help'' 1 [])"
    unfolding d2 by (simp add: Map_get_def)
  have a: "insertIntoBKTree (BKNode ''hello'' 1 []) (BKNode ''hello'' 5 []) = BKNode ''hello'' 1 []"
    using insertIntoBKTree_cases [of "''hello''" "BKNode ''hello'' 5 []" 1 "[]"] d0 by blast
  have b: "insertIntoBKTree (BKNode ''hello'' 1 []) (BKNode ''help'' 1 []) = exampleTree"
    using insertIntoBKTree_cases [of "''hello''" "BKNode ''help'' 1 []" 1 "[]"] d1 n1
    by (simp add: exampleTree_def)
  note c0 = insertIntoBKTree_cases [of "''hello''" "BKNode ''helo'' 2 []" 1
      "[(3 / 2, BKNode ''help'' 1 [])]" "BKNode ''help'' 1 []", unfolded d2]
  have "\<exists>before after.
          [(3 / 2, BKNode ''help'' 1 [])] = before @ (3 / 2, BKNode ''help'' 1 []) # after
          \<and> 3 / 2 \<notin> fst ` set before
          \<and> insertIntoBKTree (BKNode ''hello'' 1 [(3 / 2, BKNode ''help'' 1 [])]) (BKNode ''helo'' 2 [])
              = BKNode ''hello'' 1
                  (before @ (3 / 2, insertIntoBKTree (BKNode ''help'' 1 []) (BKNode ''helo'' 2 [])) # after)"
  proof (rule mp [OF mp [OF c0 [THEN conjunct2, THEN conjunct2, THEN conjunct1]]])
    show "(3 / 2 :: real) \<noteq> 0" by simp
    show "Map_get [(3 / 2, BKNode ''help'' 1 [])] (3 / 2) = Some (BKNode ''help'' 1 [])"
      by (simp add: Map_get_def)
  qed
  then obtain before after where
    split: "[(3 / 2, BKNode ''help'' 1 [])] = before @ (3 / 2, BKNode ''help'' 1 []) # after"
    and ins: "insertIntoBKTree (BKNode ''hello'' 1 [(3 / 2, BKNode ''help'' 1 [])]) (BKNode ''helo'' 2 [])
       = BKNode ''hello'' 1
           (before @ (3 / 2, insertIntoBKTree (BKNode ''help'' 1 []) (BKNode ''helo'' 2 [])) # after)"
    by blast
  from split have "before = [] \<and> after = []"
    by (cases before) simp_all
  with ins have c: "insertIntoBKTree exampleTree (BKNode ''helo'' 2 [])
        = BKNode ''hello'' 1
            [(3 / 2, insertIntoBKTree (BKNode ''help'' 1 []) (BKNode ''helo'' 2 []))]"
    by (simp add: exampleTree_def del: insertIntoBKTree.simps)
  show ?thesis
    using a b c d0 d1 d2 n1 s2 by (simp add: exampleTree_def del: insertIntoBKTree.simps)
qed

section \<open>The example engines\<close>

lemma popular_default:
  "popular (dictionarySize (defaults noOptions)) = Returns [''the'', ''help'', ''hello'']"
  by (simp add: popular_def defaults_def noOptions_def)

lemma dictionary_words:
  assumes "getMostPopular (dictionarySize (defaults opts)) = Returns ws"
  shows "Map_has (dictionary (AutoCorrectEngine getMostPopular opts)) w \<longleftrightarrow>
           w \<in> set ws \<and> length w > 1 \<and> test_az_plus w \<or> w \<in> set technicalTerms"
  using ingest_keys [of ws] AutoCorrectEngine_Returns [of getMostPopular opts ws, OF assms]
  by (auto simp: Map_has_def)

lemma exampleEngine_has_hello: "Map_has (dictionary exampleEngine) ''hello''"
  unfolding exampleEngine_def dictionary_words [of popular noOptions, OF popular_default]
  by (simp add: technicalTerms_def)

lemma failedEngine_eq: "failedEngine = fresh noOptions"
  by (simp add: failedEngine_def AutoCorrectEngine_Throws failing_def)

section \<open>Exact matches\<close>

text \<open>
  Claim C1. In every engine that a program can hold, for every input whose lowercase form
  is a key of the dictionary, \<open>getCorrections\<close> returns exactly one record, with distance
  0 and confidence 1, and leaves the cache as it was.
\<close>

theorem exact_match_single_record:
  assumes "reachable e" and "Map_has (dictionary e) (toLowerCase w)"
  shows "(\<exists>r. fst (getCorrections e w) = [r] \<and> s_distance r = 0 \<and> confidence r = Num 1)
         \<and> cache (snd (getCorrections e w)) = cache e"
  using reachable_exact [OF assms] by (simp add: exactMatch_def)

theorem exact_match_single_record_witness:
  "reachable exampleEngine \<and> Map_has (dictionary exampleEngine) (toLowerCase ''Hello'')
   \<and> (\<exists>r. fst (getCorrections exampleEngine ''Hello'') = [r] \<and> s_distance r = 0
           \<and> confidence r = Num 1)
   \<and> cache (snd (getCorrections exampleEngine ''Hello'')) = cache exampleEngine"
proof -
  have r: "reachable exampleEngine"
    unfolding exampleEngine_def by (rule reachable.constructed)
  have h: "Map_has (dictionary exampleEngine) (toLowerCase ''Hello'')"
    using exampleEngine_has_hello by (simp add: toLowerCase_def toLowerCaseChar_def capitals_def smalls_def)
  show ?thesis
    using exact_match_single_record [OF r h] r h by blast
qed

section \<open>Repeated queries\<close>

text \<open>
  Claim C7. For every engine and every query, a second \<open>getCorrections\<close> call with the
  same query, directly after the first, returns the same sequence of records as the
  first and does not change the size of the cache (it changes nothing at all).
\<close>

theorem repeated_query_same_result:
  "fst (getCorrections (snd (getCorrections e w)) w) = fst (getCorrections e w)
   \<and> length (cache (snd (getCorrections (snd (getCorrections e w)) w)))
       = length (cache (snd (getCorrections e w)))
   \<and> snd (getCorrections (snd (getCorrections e w)) w) = snd (getCorrections e w)"
proof (cases rule: getCorrections_cases [of e w])
  case (hit cached)
  then show ?thesis by simp
next
  case exact
  then show ?thesis by simp
next
  case miss
  let ?e' = "e\<lparr>cache := Map_set (evicted e) (toLowerCase w) (rankedResults e (toLowerCase w))\<rparr>"
  have "getCorrections ?e' w = (rankedResults e (toLowerCase w), ?e')"
    by (rule getCorrections_hit) (simp add: Map_get_set_same)
  with miss(3) show ?thesis by simp
qed

section \<open>Queries with no exact match are cached\<close>

text \<open>
  Claim C10. For every query that is neither in the cache nor, in lowercase, a word of the
  dictionary, \<open>getCorrections\<close> stores the list it computed in the cache under the
  lowercase query, whatever the list is, the empty list included: the key is in the cache
  afterwards, which therefore holds at least one entry, and a repeat of the query returns
  the stored list and changes nothing.
\<close>

theorem miss_is_cached:
  assumes "Map_get (cache e) (toLowerCase w) = None"
    and "\<not> Map_has (dictionary e) (toLowerCase w)"
  shows "fst (getCorrections e w) = rankedResults e (toLowerCase w)
         \<and> Map_get (cache (snd (getCorrections e w))) (toLowerCase w) = Some (fst (getCorrections e w))
         \<and> Map_has (cache (snd (getCorrections e w))) (toLowerCase w)
         \<and> 1 \<le> length (cache (snd (getCorrections e w)))
         \<and> getCorrections (snd (getCorrections e w)) w
             = (fst (getCorrections e w), snd (getCorrections e w))"
proof -
  let ?lw = "toLowerCase w"
  let ?e' = "e\<lparr>cache := Map_set (evicted e) ?lw (rankedResults e ?lw)\<rparr>"
  have gc: "getCorrections e w = (rankedResults e ?lw, ?e')"
    using assms by (rule getCorrections_miss)
  have get: "Map_get (cache ?e') ?lw = Some (rankedResults e ?lw)"
    by (simp add: Map_get_set_same)
  then have has: "Map_has (cache ?e') ?lw"
    by (simp add: Map_has_iff)
  then have "cache ?e' \<noteq> []"
    by (auto simp: Map_has_def)
  then have "1 \<le> length (cache ?e')"
    by (cases "cache ?e'") simp_all
  moreover have "getCorrections ?e' w = (rankedResults e ?lw, ?e')"
    using get by (rule getCorrections_hit)
  ultimately show ?thesis
    using get has unfolding gc fst_conv snd_conv by blast
qed

theorem miss_is_cached_witness:
  "Map_get (cache failedEngine) (toLowerCase ''Zzzz'') = None
   \<and> \<not> Map_has (dictionary failedEngine) (toLowerCase ''Zzzz'')
   \<and> fst (getCorrections failedEngine ''Zzzz'') = []
   \<and> Map_get (cache (snd (getCorrections failedEngine ''Zzzz''))) ''zzzz'' = Some []
   \<and> length (cache (snd (getCorrections failedEngine ''Zzzz''))) = 1
   \<and> getCorrections (snd (getCorrections failedEngine ''Zzzz'')) ''Zzzz''
       = ([], snd (getCorrections failedEngine ''Zzzz''))"
proof -
  have lw: "toLowerCase ''Zzzz'' = ''zzzz''"
    by (simp add: toLowerCase_def toLowerCaseChar_def capitals_def smalls_def)
  have a: "Map_get (cache failedEngine) (toLowerCase ''Zzzz'') = None"
    by (simp add: failedEngine_eq fresh_def Map_get_def)
  have b: "\<not> Map_has (dictionary failedEngine) (toLowerCase ''Zzzz'')"
    by (simp add: failedEngine_eq fresh_def Map_has_def)
  have c: "rankedResults failedEngine ''zzzz'' = []"
    by (simp add: failedEngine_eq fresh_def rankedResults_def searchBKTree_def Array_sort_def)
  have d: "cache (snd (getCorrections failedEngine ''Zzzz'')) = [(''zzzz'', [])]"
    using getCorrections_miss [OF a b]
    by (simp add: lw c) (simp add: failedEngine_eq fresh_def evicted_def defaults_def noOptions_def)
  show ?thesis
    using miss_is_cached [OF a b] a b by (simp add: lw c d prod_eq_iff)
qed

section \<open>The events of the constructor\<close>

lemma built_nodeCount:
  assumes "ingest ws = (w, f) # it"
  shows "nodeCount (grow it (BKNode w f [])) = length (ingest ws)"
proof -
  from ingest_distinct [of ws] assms
  have "distinct (map fst it)" "fst ` set it \<inter> fst ` set (entries (BKNode w f [])) = {}"
    by auto
  then have "length (entries (grow it (BKNode w f []))) = length (entries (BKNode w f [])) + length it"
    by (rule grow_length)
  then show ?thesis
    by (simp add: nodeCount_entries assms)
qed

text \<open>
  Claim C8, amended. When the external word source returns a list of words, the
  constructor emits exactly two events, in this order: \<open>dictionary-loaded\<close> with the
  number of words of the dictionary, then \<open>bk-tree-built\<close> with the number of nodes of the
  tree it built, which equals the number of words of the dictionary. When the word source
  throws, the constructor emits no event, and leaves the dictionary empty and the engine
  without a tree.
\<close>

theorem constructor_events:
  "(getMostPopular (dictionarySize (defaults opts)) = Returns ws \<longrightarrow>
      (\<exists>tree. bkTree (AutoCorrectEngine getMostPopular opts) = Some tree
         \<and> emitted (AutoCorrectEngine getMostPopular opts)
             = [DictionaryLoaded (length (dictionary (AutoCorrectEngine getMostPopular opts))),
                BKTreeBuilt (nodeCount tree)]))
   \<and> (getMostPopular (dictionarySize (defaults opts)) = Throws \<longrightarrow>
        emitted (AutoCorrectEngine getMostPopular opts) = []
        \<and> dictionary (AutoCorrectEngine getMostPopular opts) = []
        \<and> bkTree (AutoCorrectEngine getMostPopular opts) = None)"
proof (intro conjI impI)
  assume ret: "getMostPopular (dictionarySize (defaults opts)) = Returns ws"
  obtain w f it where split: "ingest ws = (w, f) # it"
    using ingest_not_Nil [of ws] by (cases "ingest ws") auto
  show "\<exists>tree. bkTree (AutoCorrectEngine getMostPopular opts) = Some tree
         \<and> emitted (AutoCorrectEngine getMostPopular opts)
             = [DictionaryLoaded (length (dictionary (AutoCorrectEngine getMostPopular opts))),
                BKTreeBuilt (nodeCount tree)]"
    using built_nodeCount [OF split]
    by (simp add: AutoCorrectEngine_Returns [of getMostPopular opts ws, OF ret] split)
next
  assume "getMostPopular (dictionarySize (defaults opts)) = Throws"
  then have "AutoCorrectEngine getMostPopular opts = fresh opts"
    by (rule AutoCorrectEngine_Throws)
  then show "emitted (AutoCorrectEngine getMostPopular opts) = []"
    "dictionary (AutoCorrectEngine getMostPopular opts) = []"
    "bkTree (AutoCorrectEngine getMostPopular opts) = None"
    by (simp_all add: fresh_def)
qed

theorem constructor_events_witness:
  "popular (dictionarySize (defaults noOptions)) = Returns [''the'', ''help'', ''hello'']
   \<and> (\<exists>tree. bkTree (AutoCorrectEngine popular noOptions) = Some tree
         \<and> emitted (AutoCorrectEngine popular noOptions)
             = [DictionaryLoaded (length (dictionary (AutoCorrectEngine popular noOptions))),
                BKTreeBuilt (nodeCount tree)])
   \<and> failing (dictionarySize (defaults noOptions)) = Throws
   \<and> emitted (AutoCorrectEngine failing noOptions) = []
   \<and> dictionary (AutoCorrectEngine failing noOptions) = []
   \<and> bkTree (AutoCorrectEngine failing noOptions) = None"
proof -
  have t: "failing (dictionarySize (defaults noOptions)) = Throws"
    by (simp add: failing_def)
  show ?thesis
    using constructor_events [of popular noOptions "[''the'', ''help'', ''hello'']"]
      constructor_events [of failing noOptions "[]"] popular_default t
    by blast
qed

theorem constructor_events_counterexample:
  "emitted (AutoCorrectEngine failing noOptions) = []"
  by (simp add: AutoCorrectEngine_Throws failing_def fresh_def)

section \<open>The ranked results\<close>

lemma Array_insert_set: "set (Array_insert comparefn a bs) = insert a (set bs)"
  by (induction bs) auto

lemma Array_sort_Cons:
  "Array_sort comparefn (x # xs) = Array_insert comparefn x (Array_sort comparefn xs)"
  by (simp add: Array_sort_def)

lemma Array_sort_set: "set (Array_sort comparefn xs) = set xs"
  by (induction xs) (simp_all add: Array_sort_Cons Array_insert_set, simp add: Array_sort_def)

text \<open>Every ranked result is the record of a node of the tree.\<close>

lemma rankedResults_from_tree:
  assumes "r \<in> set (rankedResults e q)"
  obtains tree n where "bkTree e = Some tree" "(word n, frequency n) \<in> set (entries tree)"
    "r = ranked e q (hit q n)"
proof -
  from assms have "r \<in> set (Array_sort byConfidence
      (map (ranked e q) (searchBKTree e q (maxEditDistance (config e)))))"
    unfolding rankedResults_def by (rule in_set_takeD)
  then obtain c where c: "c \<in> set (searchBKTree e q (maxEditDistance (config e)))" "r = ranked e q c"
    by (auto simp: Array_sort_set)
  then obtain tree where tree: "bkTree e = Some tree"
    "c \<in> set (searchLoop q (maxEditDistance (config e)) [tree] [])"
    by (cases "bkTree e") (auto simp: searchBKTree_def)
  then obtain n where "visits q (maxEditDistance (config e)) tree n" "c = hit q n"
    by (auto simp: searchLoop_set)
  with tree(1) c(2) that show thesis
    by (auto dest: searchLoop_entries)
qed

lemma rankedResults_word:
  assumes "tree_inv e" "r \<in> set (rankedResults e q)"
  shows "(s_word r, the (s_frequency r)) \<in> set (dictionary e)"
proof -
  from assms(2) obtain tree n where "bkTree e = Some tree"
    "(word n, frequency n) \<in> set (entries tree)" "r = ranked e q (hit q n)"
    by (rule rankedResults_from_tree)
  with assms(1) show ?thesis
    by (auto simp: tree_inv_def ranked_def hit_def Let_def)
qed

lemma toLowerCaseChar_az: "is_az ch \<Longrightarrow> toLowerCaseChar ch = ch"
  unfolding is_az_def toLowerCaseChar_def capitals_def smalls_def
  by (simp, elim disjE) simp_all

lemma toLowerCase_az: "test_az_plus w \<Longrightarrow> toLowerCase w = w"
  by (simp add: test_az_plus_def toLowerCase_def list_all_iff map_idI toLowerCaseChar_az)

text \<open>
  Claim C9. In every engine that a program can hold: for an input whose lowercase form is
  a key of the dictionary, the word of the single record returned is the input itself, in
  the case it was typed in; for any other input every record returned, computed by the
  tree search now or earlier, carries a word of the dictionary, which is in lowercase.
\<close>

theorem exact_match_keeps_case:
  assumes "reachable e"
  shows "(Map_has (dictionary e) (toLowerCase w) \<longrightarrow> map s_word (fst (getCorrections e w)) = [w])
         \<and> (\<not> Map_has (dictionary e) (toLowerCase q) \<longrightarrow>
              (\<forall>r \<in> set (fst (getCorrections e q)).
                 Map_has (dictionary e) (s_word r) \<and> toLowerCase (s_word r) = s_word r))"
proof (intro conjI impI ballI)
  assume "Map_has (dictionary e) (toLowerCase w)"
  with assms show "map s_word (fst (getCorrections e w)) = [w]"
    by (simp add: reachable_exact exactMatch_def)
next
  fix r
  assume "\<not> Map_has (dictionary e) (toLowerCase q)" "r \<in> set (fst (getCorrections e q))"
  with assms have "r \<in> set (rankedResults e (toLowerCase q))"
    by (simp add: reachable_search)
  with reachable_tree_inv [OF assms]
  have in_dict: "(s_word r, the (s_frequency r)) \<in> set (dictionary e)"
    by (rule rankedResults_word)
  with reachable_tree_inv [OF assms] have "test_az_plus (s_word r)"
    by (auto simp: tree_inv_def list_all_iff)
  then show "toLowerCase (s_word r) = s_word r"
    by (rule toLowerCase_az)
  from in_dict show "Map_has (dictionary e) (s_word r)"
    by (force simp: Map_has_def)
qed

lemma exampleEngine_reachable: "reachable exampleEngine"
  unfolding exampleEngine_def by (rule reachable.constructed)

lemma exampleEngine_thx:
  "searchBKTree exampleEngine ''thx'' 2 = [\<lparr>c_word = ''the'', c_distance = 1, c_frequency = 3\<rparr>]"
  by code_simp

lemma exampleEngine_fields:
  "maxEditDistance (config exampleEngine) = 2" "maxFrequency exampleEngine = 3"
  unfolding exampleEngine_def AutoCorrectEngine_Returns [of popular noOptions, OF popular_default]
  by (simp_all add: defaults_def noOptions_def)

lemma exampleEngine_lacks_thx: "\<not> Map_has (dictionary exampleEngine) ''thx''"
  unfolding exampleEngine_def dictionary_words [of popular noOptions, OF popular_default]
  by (simp add: technicalTerms_def)

lemma exampleEngine_Thx:
  "fst (getCorrections exampleEngine ''Thx'') =
     [ranked exampleEngine ''thx'' \<lparr>c_word = ''the'', c_distance = 1, c_frequency = 3\<rparr>]"
proof -
  have lw: "toLowerCase ''Thx'' = ''thx''"
    by (simp add: toLowerCase_def toLowerCaseChar_def capitals_def smalls_def)
  have "fst (getCorrections exampleEngine ''Thx'') = rankedResults exampleEngine ''thx''"
    using reachable_search [OF exampleEngine_reachable, of "''Thx''"] exampleEngine_lacks_thx
    by (simp add: lw)
  then show ?thesis
    by (simp add: rankedResults_def exampleEngine_fields exampleEngine_thx Array_sort_def)
qed

theorem exact_match_keeps_case_witness:
  "reachable exampleEngine
   \<and> Map_has (dictionary exampleEngine) (toLowerCase ''Hello'')
   \<and> map s_word (fst (getCorrections exampleEngine ''Hello'')) = [''Hello'']
   \<and> \<not> Map_has (dictionary exampleEngine) (toLowerCase ''Thx'')
   \<and> map s_word (fst (getCorrections exampleEngine ''Thx'')) = [''the'']
   \<and> Map_has (dictionary exampleEngine) ''the'' \<and> toLowerCase ''the'' = ''the''"
proof -
  have h: "Map_has (dictionary exampleEngine) (toLowerCase ''Hello'')"
    using exampleEngine_has_hello by (simp add: toLowerCase_def toLowerCaseChar_def capitals_def smalls_def)
  have t: "\<not> Map_has (dictionary exampleEngine) (toLowerCase ''Thx'')"
    using exampleEngine_lacks_thx by (simp add: toLowerCase_def toLowerCaseChar_def capitals_def smalls_def)
  have words: "map s_word (fst (getCorrections exampleEngine ''Thx'')) = [''the'']"
    by (simp add: exampleEngine_Thx ranked_def)
  note c = exact_match_keeps_case [OF exampleEngine_reachable, of "''Hello''" "''Thx''"]
  from c h have "map s_word (fst (getCorrections exampleEngine ''Hello'')) = [''Hello'']"
    by blast
  moreover from c t have "\<forall>r \<in> set (fst (getCorrections exampleEngine ''Thx'')).
      Map_has (dictionary exampleEngine) (s_word r) \<and> toLowerCase (s_word r) = s_word r"
    by blast
  then have "Map_has (dictionary exampleEngine) ''the'' \<and> toLowerCase ''the'' = ''the''"
    unfolding exampleEngine_Thx by (simp add: ranked_def)
  ultimately show ?thesis
    using exampleEngine_reachable h t words by blast
qed

section \<open>The order of the results\<close>

text \<open>Between two records with finite confidences the comparator is positive exactly when
  the second has the greater confidence, and the sort orders a list of such records.\<close>

lemma byConfidence_Num:
  "confidence a = Num x \<Longrightarrow> confidence b = Num y \<Longrightarrow>
   js_positive (byConfidence a b) \<longleftrightarrow> x < y"
  by (simp add: byConfidence_def js_sub_def)

lemma Array_insert_sorted:
  assumes "\<forall>r \<in> set (a # bs). \<exists>x. confidence r = Num x" "nonIncreasing bs"
  shows "nonIncreasing (Array_insert byConfidence a bs)"
  using assms
proof (induction bs)
  case Nil
  show ?case by (simp add: nonIncreasing_def)
next
  case (Cons b bs)
  from Cons.prems(1) obtain x y where xy: "confidence a = Num x" "confidence b = Num y"
    by auto
  show ?case
  proof (cases "x < y")
    case True
    from Cons.prems have "nonIncreasing (Array_insert byConfidence a bs)"
      by (intro Cons.IH) (auto simp: nonIncreasing_def)
    moreover from Cons.prems(2) True xy
    have "\<forall>r \<in> set (Array_insert byConfidence a bs). js_ge (confidence b) (confidence r)"
      by (auto simp: Array_insert_set nonIncreasing_def)
    ultimately show ?thesis
      using True xy by (simp add: byConfidence_Num nonIncreasing_def)
  next
    case False
    have "js_ge (confidence a) (confidence r)" if "r \<in> set bs" for r
    proof -
      from that Cons.prems(1) obtain z where z: "confidence r = Num z"
        by auto
      with that Cons.prems(2) xy have "z \<le> y"
        by (auto simp: nonIncreasing_def)
      with False xy z show ?thesis by simp
    qed
    with False xy Cons.prems(2) show ?thesis
      by (simp add: byConfidence_Num nonIncreasing_def)
  qed
qed

lemma Array_sort_sorted:
  "\<forall>r \<in> set rs. \<exists>x. confidence r = Num x \<Longrightarrow> nonIncreasing (Array_sort byConfidence rs)"
proof (induction rs)
  case Nil
  show ?case by (simp add: Array_sort_def nonIncreasing_def)
next
  case (Cons r rs)
  then show ?case
    unfolding Array_sort_Cons by (intro Array_insert_sorted) (simp_all add: Array_sort_set)
qed

text \<open>With a positive \<open>maxFrequency\<close>, a score of at least 0 and a word that is not empty, the
  confidence is a real number.\<close>

lemma ranked_confidence_Num:
  assumes "0 < maxFrequency e" "0 \<le> frequency n" "word n \<noteq> []"
  shows "\<exists>x. confidence (ranked e q (hit q n)) = Num x"
proof -
  have "ln (1 + real (maxFrequency e)) \<noteq> 0"
    using assms(1) by simp
  moreover have "real (max (length q) (length (word n))) \<noteq> 0"
    using assms(3) by simp
  ultimately show ?thesis
    using assms(2) by (simp add: ranked_def hit_def Math_log1p_def js_sub_def Let_def)
qed

lemma rankedResults_sorted:
  assumes "tree_inv e" "0 < maxFrequency e"
  shows "nonIncreasing (rankedResults e q)"
proof -
  let ?all = "map (ranked e q) (searchBKTree e q (maxEditDistance (config e)))"
  have "\<exists>x. confidence r = Num x" if "r \<in> set ?all" for r
  proof -
    from that obtain c where c: "c \<in> set (searchBKTree e q (maxEditDistance (config e)))"
        "r = ranked e q c"
      by auto
    then obtain tree where tree: "bkTree e = Some tree"
        "c \<in> set (searchLoop q (maxEditDistance (config e)) [tree] [])"
      by (cases "bkTree e") (auto simp: searchBKTree_def)
    then obtain n where n: "visits q (maxEditDistance (config e)) tree n" "c = hit q n"
      by (auto simp: searchLoop_set)
    from searchLoop_entries [OF n(1)] tree(1) assms(1)
    have "(word n, frequency n) \<in> set (dictionary e)"
      by (auto simp: tree_inv_def)
    with assms(1) have "test_az_plus (fst (word n, frequency n)) \<and> 0 \<le> snd (word n, frequency n)"
      unfolding tree_inv_def list_all_iff by blast
    then have "0 \<le> frequency n" "test_az_plus (word n)"
      by simp_all
    then have "\<exists>x. confidence (ranked e q (hit q n)) = Num x"
      using assms(2) by (intro ranked_confidence_Num) (auto simp: test_az_plus_def)
    with c(2) n(2) show ?thesis by simp
  qed
  then have "nonIncreasing (Array_sort byConfidence ?all)"
    by (intro Array_sort_sorted) blast
  then show ?thesis
    by (simp add: rankedResults_def nonIncreasing_def)
qed

text \<open>
  Claim C2, amended. In every engine that a program can hold, for every query, the
  sequence returned by \<open>getCorrections\<close> has at most 5 records, on each of its three paths;
  and when the word source returned at least one word, so that \<open>maxFrequency\<close> is
  positive, the records are in the order of non-increasing confidence.
\<close>

theorem results_at_most_five_ranked:
  assumes "reachable e"
  shows "length (fst (getCorrections e w)) \<le> 5
         \<and> (0 < maxFrequency e \<longrightarrow> nonIncreasing (fst (getCorrections e w)))"
proof (cases "Map_has (dictionary e) (toLowerCase w)")
  case True
  with assms show ?thesis
    by (simp add: reachable_exact nonIncreasing_def)
next
  case False
  with assms have "fst (getCorrections e w) = rankedResults e (toLowerCase w)"
    by (rule reachable_search)
  moreover have "length (rankedResults e (toLowerCase w)) \<le> 5"
    by (simp add: rankedResults_def)
  ultimately show ?thesis
    using rankedResults_sorted [OF reachable_tree_inv [OF assms]] by simp
qed

text \<open>An engine in which every word has the same score, with a search radius of 5: the
  search for \<open>mache\<close> finds six candidates, the sort moves \<open>machine\<close> and \<open>cache\<close> to the
  front and keeps \<open>search\<close> before \<open>system\<close>, which have the same confidence, and the cut at 5
  drops \<open>fuzzy\<close>.\<close>

lemma oneLetter_default:
  "oneLetter (dictionarySize (defaults wideSearch)) = Returns [''a'']"
  by (simp add: oneLetter_def defaults_def wideSearch_def)

lemma wideEngine_fields:
  "maxEditDistance (config wideEngine) = 5" "maxFrequency wideEngine = 1"
  unfolding wideEngine_def AutoCorrectEngine_Returns [of oneLetter wideSearch, OF oneLetter_default]
  by (simp_all add: defaults_def wideSearch_def)

lemma wideEngine_lacks_mache: "\<not> Map_has (dictionary wideEngine) ''mache''"
  unfolding wideEngine_def dictionary_words [of oneLetter wideSearch, OF oneLetter_default]
  by (simp add: technicalTerms_def)

lemma wideEngine_mache:
  "searchBKTree wideEngine ''mache'' 5 =
     [\<lparr>c_word = ''search'', c_distance = 9 / 2, c_frequency = 6 / 5\<rparr>,
      \<lparr>c_word = ''fuzzy'', c_distance = 5, c_frequency = 6 / 5\<rparr>,
      \<lparr>c_word = ''cache'', c_distance = 2, c_frequency = 6 / 5\<rparr>,
      \<lparr>c_word = ''system'', c_distance = 9 / 2, c_frequency = 6 / 5\<rparr>,
      \<lparr>c_word = ''machine'', c_distance = 2, c_frequency = 6 / 5\<rparr>,
      \<lparr>c_word = ''hello'', c_distance = 4, c_frequency = 6 / 5\<rparr>]"
  by code_simp

lemma wideEngine_results:
  "map s_word (rankedResults wideEngine ''mache'')
     = [''machine'', ''cache'', ''search'', ''system'', ''hello'']"
  by (simp add: rankedResults_def wideEngine_fields wideEngine_mache Array_sort_def
      ranked_def Math_log1p_def js_sub_def byConfidence_def)

theorem results_at_most_five_ranked_witness:
  "reachable wideEngine \<and> 0 < maxFrequency wideEngine
   \<and> map c_word (searchBKTree wideEngine ''mache'' (maxEditDistance (config wideEngine)))
       = [''search'', ''fuzzy'', ''cache'', ''system'', ''machine'', ''hello'']
   \<and> map s_word (fst (getCorrections wideEngine ''mache''))
       = [''machine'', ''cache'', ''search'', ''system'', ''hello'']
   \<and> length (fst (getCorrections wideEngine ''mache'')) \<le> 5
   \<and> nonIncreasing (fst (getCorrections wideEngine ''mache''))"
proof -
  have r: "reachable wideEngine"
    unfolding wideEngine_def by (rule reachable.constructed)
  have lw: "toLowerCase ''mache'' = ''mache''"
    by (simp add: toLowerCase_def toLowerCaseChar_def capitals_def smalls_def)
  have "fst (getCorrections wideEngine ''mache'') = rankedResults wideEngine ''mache''"
    using reachable_search [OF r, of "''mache''"] wideEngine_lacks_mache by (simp add: lw)
  then have words: "map s_word (fst (getCorrections wideEngine ''mache''))
       = [''machine'', ''cache'', ''search'', ''system'', ''hello'']"
    by (simp add: wideEngine_results)
  have cands: "map c_word (searchBKTree wideEngine ''mache'' (maxEditDistance (config wideEngine)))
       = [''search'', ''fuzzy'', ''cache'', ''system'', ''machine'', ''hello'']"
    by (simp add: wideEngine_fields wideEngine_mache)
  have m: "0 < maxFrequency wideEngine"
    by (simp add: wideEngine_fields)
  from results_at_most_five_ranked [OF r, of "''mache''"] m
  have "length (fst (getCorrections wideEngine ''mache'')) \<le> 5
        \<and> nonIncreasing (fst (getCorrections wideEngine ''mache''))"
    by blast
  with r m cands words show ?thesis
    by blast
qed

text \<open>The claim as stated, for every engine, fails when the word source returns no word:
  \<open>maxFrequency\<close> is 0, every score is 0, and the frequency score of every candidate is
  \<open>Math.log1p(0) / Math.log1p(0)\<close>, which is NaN. The comparator of the sort returns NaN,
  the order of the candidates is kept, and no confidence is greater than or equal to the
  next one.\<close>

lemma popular_zero: "popular (dictionarySize (defaults zeroWords)) = Returns []"
  by (simp add: popular_def defaults_def zeroWords_def)

lemma emptyEngine_fields:
  "maxEditDistance (config emptyEngine) = 2" "maxFrequency emptyEngine = 0"
  unfolding emptyEngine_def AutoCorrectEngine_Returns [of popular zeroWords, OF popular_zero]
  by (simp_all add: defaults_def zeroWords_def)

lemma emptyEngine_lacks_mache: "\<not> Map_has (dictionary emptyEngine) ''mache''"
  unfolding emptyEngine_def dictionary_words [of popular zeroWords, OF popular_zero]
  by (simp add: technicalTerms_def)

lemma emptyEngine_mache:
  "searchBKTree emptyEngine ''mache'' 2 =
     [\<lparr>c_word = ''cache'', c_distance = 2, c_frequency = 0\<rparr>,
      \<lparr>c_word = ''machine'', c_distance = 2, c_frequency = 0\<rparr>]"
  by code_simp

lemma emptyEngine_results:
  "fst (getCorrections emptyEngine ''mache'') =
     [\<lparr>s_word = ''cache'', s_distance = 2, s_frequency = Some 0, confidence = NaN\<rparr>,
      \<lparr>s_word = ''machine'', s_distance = 2, s_frequency = Some 0, confidence = NaN\<rparr>]"
proof -
  have lw: "toLowerCase ''mache'' = ''mache''"
    by (simp add: toLowerCase_def toLowerCaseChar_def capitals_def smalls_def)
  have "reachable emptyEngine"
    unfolding emptyEngine_def by (rule reachable.constructed)
  then have "fst (getCorrections emptyEngine ''mache'') = rankedResults emptyEngine ''mache''"
    using reachable_search [of emptyEngine "''mache''"] emptyEngine_lacks_mache
    by (simp add: lw)
  then show ?thesis
    by (simp add: rankedResults_def emptyEngine_fields emptyEngine_mache Array_sort_def
        ranked_def Math_log1p_def js_sub_def byConfidence_def)
qed

theorem results_at_most_five_ranked_counterexample:
  "reachable emptyEngine
   \<and> map s_word (fst (getCorrections emptyEngine ''mache'')) = [''cache'', ''machine'']
   \<and> map confidence (fst (getCorrections emptyEngine ''mache'')) = [NaN, NaN]
   \<and> \<not> nonIncreasing (fst (getCorrections emptyEngine ''mache''))"
proof -
  have "reachable emptyEngine"
    unfolding emptyEngine_def by (rule reachable.constructed)
  then show ?thesis
    by (simp add: emptyEngine_results nonIncreasing_def)
qed

section \<open>The cache\<close>

lemma Map_set_length: "length (Map_set m k v) \<le> length m + 1"
  by (induction m) auto

lemma evicted_length:
  "length (evicted e) \<le> length (cache e)"
  "js_ge (Num (real (length (cache e)))) (cacheSize (config e)) \<Longrightarrow>
     length (evicted e) \<le> length (cache e) - 1"
proof -
  have del: "length (Map_delete ((k, v) # rest) k) \<le> length rest" for k v and rest :: "(string \<times> suggestion list) list"
    by (simp add: Map_delete_def)
  show "js_ge (Num (real (length (cache e)))) (cacheSize (config e)) \<Longrightarrow>
     length (evicted e) \<le> length (cache e) - 1"
    using del by (auto simp: evicted_def split: list.splits)
  show "length (evicted e) \<le> length (cache e)"
    using del by (auto simp: evicted_def le_SucI split: list.splits)
qed

lemma cache_bound_step:
  assumes "cacheSize (config e) = Num c" "int (length (cache e)) \<le> max 1 \<lceil>c\<rceil>"
  shows "int (length (cache (snd (getCorrections e w)))) \<le> max 1 \<lceil>c\<rceil>"
proof (cases rule: getCorrections_cases [of e w])
  case (hit cached)
  with assms show ?thesis by simp
next
  case exact
  with assms show ?thesis by simp
next
  case miss
  have stored: "length (Map_set (evicted e) (toLowerCase w) (rankedResults e (toLowerCase w)))
          \<le> length (evicted e) + 1"
    by (rule Map_set_length)
  have "int (length (evicted e)) + 1 \<le> max 1 \<lceil>c\<rceil>"
  proof (cases "c \<le> real (length (cache e))")
    case True
    then have "length (evicted e) \<le> length (cache e) - 1"
      using evicted_length(2) [of e] by (simp add: assms(1))
    with assms(2) show ?thesis
      by (cases "length (cache e)") auto
  next
    case False
    then have "int (length (cache e)) < \<lceil>c\<rceil>"
      by (simp add: less_ceiling_iff)
    moreover from False have "evicted e = cache e"
      by (simp add: evicted_def assms(1))
    ultimately show ?thesis by simp
  qed
  with stored miss(3) show ?thesis
    by simp
qed

lemma reachable_cache_bound:
  "reachable e \<Longrightarrow> cacheSize (config e) = Num c \<Longrightarrow> int (length (cache e)) \<le> max 1 \<lceil>c\<rceil>"
proof (induction rule: reachable.induct)
  case (constructed getMostPopular opts)
  show ?case by (simp add: AutoCorrectEngine_cache)
next
  case (queried e w)
  then show ?case
    by (intro cache_bound_step) (simp_all add: getCorrections_frame)
qed

lemma evicted_full:
  assumes "distinct (map fst (cache e))"
    "js_ge (Num (real (length (cache e)))) (cacheSize (config e))"
  shows "evicted e = tl (cache e)"
proof (cases "cache e")
  case Nil
  with assms(2) show ?thesis by (simp add: evicted_def)
next
  case (Cons kv rest)
  obtain k v where kv: "kv = (k, v)" by (cases kv)
  with assms Cons show ?thesis
    using Map_delete_head [of k v rest] by (simp add: evicted_def)
qed

lemma miss_cache:
  assumes "cache_inv e" "Map_get (cache e) (toLowerCase w) = None"
    "\<not> Map_has (dictionary e) (toLowerCase w)"
  shows "cache (snd (getCorrections e w)) =
           (if js_ge (Num (real (length (cache e)))) (cacheSize (config e))
            then tl (cache e) else cache e)
           @ [(toLowerCase w, fst (getCorrections e w))]"
proof -
  from assms(2) have "toLowerCase w \<notin> fst ` set (cache e)"
    by (simp add: Map_get_def map_of_eq_None_iff)
  with evicted_subset [of e] have "toLowerCase w \<notin> set (map fst (evicted e))"
    by auto
  then have "Map_set (evicted e) (toLowerCase w) (rankedResults e (toLowerCase w))
               = evicted e @ [(toLowerCase w, rankedResults e (toLowerCase w))]"
    by (rule Map_set_absent)
  moreover have "evicted e = (if js_ge (Num (real (length (cache e)))) (cacheSize (config e))
                             then tl (cache e) else cache e)"
    using assms(1) evicted_full [of e] by (simp add: cache_inv_def) (simp add: evicted_def)
  ultimately show ?thesis
    using getCorrections_miss [OF assms(2,3)] by simp
qed

lemma afterQueries_simps:
  "afterQueries e [] = e"
  "afterQueries e (q # qs) = afterQueries (snd (getCorrections e q)) qs"
  by (simp_all add: afterQueries_def)

text \<open>With a positive \<open>cacheSize\<close> \<open>c\<close>, the keys of the cache after a run of new queries are
  the last \<open>\<lceil>c\<rceil>\<close> of all keys in the order of insertion.\<close>

lemma afterQueries_keys:
  assumes "cache_inv e" "cacheSize (config e) = Num c" "0 < c"
    "int (length (cache e)) \<le> \<lceil>c\<rceil>"
    "distinct (map toLowerCase qs)"
    "\<forall>q \<in> set qs. \<not> Map_has (dictionary e) (toLowerCase q) \<and> toLowerCase q \<notin> fst ` set (cache e)"
  shows "map fst (cache (afterQueries e qs)) =
           drop (length (cache e) + length qs - nat \<lceil>c\<rceil>)
             (map fst (cache e) @ map toLowerCase qs)"
  using assms
proof (induction qs arbitrary: e)
  case Nil
  then show ?case by (simp add: afterQueries_simps)
next
  case (Cons q qs)
  let ?e' = "snd (getCorrections e q)"
  let ?n = "nat \<lceil>c\<rceil>"
  from Cons.prems(3) have "0 < \<lceil>c\<rceil>"
    by (simp add: less_ceiling_iff)
  then have n1: "1 \<le> ?n"
    by linarith
  have full: "js_ge (Num (real (length (cache e)))) (cacheSize (config e)) \<longleftrightarrow> length (cache e) = ?n"
  proof -
    have "c \<le> real (length (cache e)) \<longleftrightarrow> \<lceil>c\<rceil> \<le> int (length (cache e))"
      by (simp add: ceiling_le_iff)
    with Cons.prems(2,4) show ?thesis
      by auto
  qed
  from Cons.prems(4) have len: "length (cache e) \<le> ?n"
    by simp
  from Cons.prems(6) have fresh_q: "Map_get (cache e) (toLowerCase q) = None"
    "\<not> Map_has (dictionary e) (toLowerCase q)"
    by (simp_all add: Map_get_def map_of_eq_None_iff)
  note step = miss_cache [OF Cons.prems(1) fresh_q]
  have keys': "map fst (cache ?e') =
      (if length (cache e) = ?n then tl (map fst (cache e)) else map fst (cache e)) @ [toLowerCase q]"
    unfolding step full by (simp add: map_tl)
  have len': "length (cache ?e') = (if length (cache e) = ?n then ?n else length (cache e) + 1)"
  proof -
    have "length (cache ?e') = length (map fst (cache ?e'))"
      by simp
    also have "\<dots> = length ((if length (cache e) = ?n then tl (map fst (cache e))
                                else map fst (cache e)) @ [toLowerCase q])"
      by (simp only: keys')
    also have "\<dots> = (if length (cache e) = ?n then ?n else length (cache e) + 1)"
      using n1 by auto
    finally show ?thesis .
  qed
  have inv': "cache_inv ?e'"
    using Cons.prems(1) by (rule cache_inv_step)
  have cfg: "config ?e' = config e" "dictionary ?e' = dictionary e"
    by (simp_all add: getCorrections_frame)
  have bound': "int (length (cache ?e')) \<le> \<lceil>c\<rceil>"
    using len n1 by (auto simp: len')
  have sub: "fst ` set (cache ?e') \<subseteq> insert (toLowerCase q) (fst ` set (cache e))"
    using arg_cong [OF keys', of set] by (cases "cache e") auto
  have rest: "\<forall>q' \<in> set qs. \<not> Map_has (dictionary ?e') (toLowerCase q')
                \<and> toLowerCase q' \<notin> fst ` set (cache ?e')"
  proof (intro ballI conjI)
    fix q' assume q': "q' \<in> set qs"
    with Cons.prems(6) show "\<not> Map_has (dictionary ?e') (toLowerCase q')"
      by (simp add: cfg)
    from q' Cons.prems(5) have "toLowerCase q' \<noteq> toLowerCase q"
      by (metis distinct.simps(2) image_eqI list.simps(9) set_map)
    moreover from q' Cons.prems(6) have "toLowerCase q' \<notin> fst ` set (cache e)"
      by simp
    ultimately show "toLowerCase q' \<notin> fst ` set (cache ?e')"
      using sub by blast
  qed
  from Cons.prems(5) have dist: "distinct (map toLowerCase qs)"
    by simp
  have cs': "cacheSize (config ?e') = Num c"
    using Cons.prems(2) by (simp add: cfg)
  have "map fst (cache (afterQueries ?e' qs)) =
          drop (length (cache ?e') + length qs - ?n) (map fst (cache ?e') @ map toLowerCase qs)"
    by (rule Cons.IH [OF inv' cs' Cons.prems(3) bound' dist rest])
  also have "\<dots> = drop (length (cache e) + length (q # qs) - ?n)
                     (map fst (cache e) @ map toLowerCase (q # qs))"
  proof (cases "length (cache e) = ?n")
    case True
    let ?all = "map fst (cache e) @ map toLowerCase (q # qs)"
    from True n1 have "cache e \<noteq> []"
      by auto
    with True have 1: "map fst (cache ?e') @ map toLowerCase qs = tl ?all"
      by (simp add: keys')
    have 2: "length (cache ?e') + length qs - ?n = length qs"
      using True by (simp add: len')
    have 3: "length (cache e) + length (q # qs) - ?n = Suc (length qs)"
      using True by simp
    show ?thesis
      unfolding 1 2 3 by (simp only: drop_Suc)
  next
    case False
    then show ?thesis
      by (simp add: keys' len')
  qed
  finally show ?case
    by (simp add: afterQueries_simps)
qed

lemma AutoCorrectEngine_config: "config (AutoCorrectEngine getMostPopular opts) = defaults opts"
  by (cases "getMostPopular (dictionarySize (defaults opts))")
    (simp_all add: AutoCorrectEngine_Returns [of getMostPopular opts] AutoCorrectEngine_Throws fresh_def)

lemma fresh_run_keys:
  assumes "cacheSize (defaults opts) = Num c" "0 < c" "distinct (map toLowerCase qs)"
    "\<forall>q \<in> set qs. \<not> Map_has (dictionary (AutoCorrectEngine getMostPopular opts)) (toLowerCase q)"
  shows "map fst (cache (afterQueries (AutoCorrectEngine getMostPopular opts) qs))
           = drop (length qs - nat \<lceil>c\<rceil>) (map toLowerCase qs)"
proof -
  let ?e0 = "AutoCorrectEngine getMostPopular opts"
  have "map fst (cache (afterQueries ?e0 qs)) =
          drop (length (cache ?e0) + length qs - nat \<lceil>c\<rceil>)
            (map fst (cache ?e0) @ map toLowerCase qs)"
    using assms by (intro afterQueries_keys reachable_cache_inv reachable.constructed)
      (simp_all add: AutoCorrectEngine_config AutoCorrectEngine_cache)
  then show ?thesis
    by (simp add: AutoCorrectEngine_cache)
qed

text \<open>
  Claim C3, amended. In every engine that a program can hold, when \<open>cacheSize\<close> is a finite
  number \<open>c\<close> the cache holds at most \<open>max(\<lceil>c\<rceil>, 1)\<close> entries, hence at most \<open>cacheSize\<close> when
  \<open>cacheSize\<close> is an integer that is at least 1. A query whose lowercase form is neither a
  key of the cache nor a word of the dictionary appends its entry at the end of the cache,
  after the entry inserted earliest has been removed when the size of the cache was
  greater than or equal to \<open>cacheSize\<close>; a query whose lowercase form is a key of the cache
  leaves the cache as it is, so the order is that of insertion and not that of use. With a
  positive \<open>cacheSize\<close> \<open>c\<close>, after any number of queries on a new engine whose lowercase forms
  are pairwise distinct and not in the dictionary, the keys of the cache are the last
  \<open>\<lceil>c\<rceil>\<close> of these lowercase forms: the keys inserted earliest are the ones absent.
\<close>

theorem cache_bounded_fifo:
  assumes "reachable e"
  shows "(cacheSize (config e) = Num c \<longrightarrow> int (length (cache e)) \<le> max 1 \<lceil>c\<rceil>)
    \<and> (Map_get (cache e) (toLowerCase w) = None \<and> \<not> Map_has (dictionary e) (toLowerCase w) \<longrightarrow>
         cache (snd (getCorrections e w)) =
           (if js_ge (Num (real (length (cache e)))) (cacheSize (config e))
            then tl (cache e) else cache e)
           @ [(toLowerCase w, fst (getCorrections e w))])
    \<and> (Map_get (cache e) (toLowerCase h) \<noteq> None \<longrightarrow> cache (snd (getCorrections e h)) = cache e)
    \<and> (cacheSize (defaults opts) = Num n \<and> 0 < n \<and> distinct (map toLowerCase qs)
        \<and> (\<forall>q \<in> set qs. \<not> Map_has (dictionary (AutoCorrectEngine getMostPopular opts)) (toLowerCase q)) \<longrightarrow>
         map fst (cache (afterQueries (AutoCorrectEngine getMostPopular opts) qs))
           = drop (length qs - nat \<lceil>n\<rceil>) (map toLowerCase qs))"
proof (intro conjI impI)
  assume "cacheSize (config e) = Num c"
  with assms show "int (length (cache e)) \<le> max 1 \<lceil>c\<rceil>"
    by (rule reachable_cache_bound)
next
  assume "Map_get (cache e) (toLowerCase w) = None \<and> \<not> Map_has (dictionary e) (toLowerCase w)"
  then show "cache (snd (getCorrections e w)) =
           (if js_ge (Num (real (length (cache e)))) (cacheSize (config e))
            then tl (cache e) else cache e)
           @ [(toLowerCase w, fst (getCorrections e w))]"
    using miss_cache [OF reachable_cache_inv [OF assms]] by blast
next
  assume "Map_get (cache e) (toLowerCase h) \<noteq> None"
  then show "cache (snd (getCorrections e h)) = cache e"
    by (auto simp: getCorrections_hit)
next
  assume "cacheSize (defaults opts) = Num n \<and> 0 < n \<and> distinct (map toLowerCase qs)
        \<and> (\<forall>q \<in> set qs. \<not> Map_has (dictionary (AutoCorrectEngine getMostPopular opts)) (toLowerCase q))"
  then show "map fst (cache (afterQueries (AutoCorrectEngine getMostPopular opts) qs))
           = drop (length qs - nat \<lceil>n\<rceil>) (map toLowerCase qs)"
    using fresh_run_keys [of opts n qs getMostPopular] by blast
qed

lemma afterQueries_reachable: "reachable e \<Longrightarrow> reachable (afterQueries e qs)"
  by (induction qs arbitrary: e) (simp_all add: afterQueries_simps reachable.queried)

lemma afterQueries_frame:
  "config (afterQueries e qs) = config e" "dictionary (afterQueries e qs) = dictionary e"
  by (induction qs arbitrary: e) (simp_all add: afterQueries_simps getCorrections_frame)

lemma lower_examples:
  "toLowerCase ''zzzz'' = ''zzzz''" "toLowerCase ''Zzzz'' = ''zzzz''"
  "toLowerCase ''qqqq'' = ''qqqq''" "toLowerCase ''xxxx'' = ''xxxx''"
  by (simp_all add: toLowerCase_def toLowerCaseChar_def capitals_def smalls_def)

lemma popular_default_size:
  "opt_dictionarySize opts = None \<Longrightarrow>
   popular (dictionarySize (defaults opts)) = Returns [''the'', ''help'', ''hello'']"
  by (simp add: popular_def defaults_def)

lemma popular_engine_lacks:
  assumes "opt_dictionarySize opts = None"
  shows "\<not> Map_has (dictionary (AutoCorrectEngine popular opts)) ''zzzz''"
    "\<not> Map_has (dictionary (AutoCorrectEngine popular opts)) ''qqqq''"
    "\<not> Map_has (dictionary (AutoCorrectEngine popular opts)) ''xxxx''"
  unfolding dictionary_words [of popular opts, OF popular_default_size [OF assms]]
  by (simp_all add: technicalTerms_def)

lemma twoSlotEngine_facts:
  "reachable twoSlotEngine" "config twoSlotEngine = defaults twoSlots"
  "cacheSize (defaults twoSlots) = Num 2"
  "\<not> Map_has (dictionary twoSlotEngine) ''zzzz''" "\<not> Map_has (dictionary twoSlotEngine) ''qqqq''"
  "\<not> Map_has (dictionary twoSlotEngine) ''xxxx''"
proof -
  show "reachable twoSlotEngine"
    unfolding twoSlotEngine_def by (rule reachable.constructed)
  show "config twoSlotEngine = defaults twoSlots"
    by (simp add: twoSlotEngine_def AutoCorrectEngine_config)
  show "cacheSize (defaults twoSlots) = Num 2"
    by (simp add: defaults_def twoSlots_def)
  show "\<not> Map_has (dictionary twoSlotEngine) ''zzzz''" "\<not> Map_has (dictionary twoSlotEngine) ''qqqq''"
    "\<not> Map_has (dictionary twoSlotEngine) ''xxxx''"
    unfolding twoSlotEngine_def by (rule popular_engine_lacks; simp add: twoSlots_def)+
qed

text \<open>A cache of two entries tells the order of insertion from the order of use:
  \<open>zzzz\<close> and \<open>qqqq\<close> fill it, \<open>Zzzz\<close> is then answered from it, and \<open>xxxx\<close> evicts \<open>zzzz\<close>, the
  key inserted first and used last.\<close>

theorem cache_bounded_fifo_witness:
  "reachable (afterQueries twoSlotEngine [''zzzz'', ''qqqq''])
   \<and> cacheSize (config (afterQueries twoSlotEngine [''zzzz'', ''qqqq''])) = Num 2
   \<and> int (length (cache (afterQueries twoSlotEngine [''zzzz'', ''qqqq'']))) \<le> max 1 \<lceil>2 :: real\<rceil>
   \<and> map fst (cache (afterQueries twoSlotEngine [''zzzz'', ''qqqq''])) = [''zzzz'', ''qqqq'']
   \<and> Map_get (cache (afterQueries twoSlotEngine [''zzzz'', ''qqqq''])) (toLowerCase ''Zzzz'') \<noteq> None
   \<and> cache (snd (getCorrections (afterQueries twoSlotEngine [''zzzz'', ''qqqq'']) ''Zzzz''))
       = cache (afterQueries twoSlotEngine [''zzzz'', ''qqqq''])
   \<and> reachable (snd (getCorrections (afterQueries twoSlotEngine [''zzzz'', ''qqqq'']) ''Zzzz''))
   \<and> Map_get (cache (snd (getCorrections (afterQueries twoSlotEngine [''zzzz'', ''qqqq'']) ''Zzzz'')))
         (toLowerCase ''xxxx'') = None
   \<and> \<not> Map_has (dictionary (snd (getCorrections (afterQueries twoSlotEngine [''zzzz'', ''qqqq''])
                                      ''Zzzz''))) (toLowerCase ''xxxx'')
   \<and> map fst (cache (snd (getCorrections
         (snd (getCorrections (afterQueries twoSlotEngine [''zzzz'', ''qqqq'']) ''Zzzz'')) ''xxxx'')))
       = [''qqqq'', ''xxxx'']
   \<and> cacheSize (defaults twoSlots) = Num 2 \<and> (0 :: real) < 2
   \<and> distinct (map toLowerCase [''zzzz'', ''qqqq'', ''xxxx''])
   \<and> \<not> Map_has (dictionary twoSlotEngine) (toLowerCase ''zzzz'')
   \<and> \<not> Map_has (dictionary twoSlotEngine) (toLowerCase ''qqqq'')
   \<and> \<not> Map_has (dictionary twoSlotEngine) (toLowerCase ''xxxx'')
   \<and> map fst (cache (afterQueries twoSlotEngine [''zzzz'', ''qqqq'', ''xxxx''])) = [''qqqq'', ''xxxx'']"
proof -
  let ?e2 = "afterQueries twoSlotEngine [''zzzz'', ''qqqq'']"
  let ?e3 = "snd (getCorrections ?e2 ''Zzzz'')"
  note f = twoSlotEngine_facts
  have r2: "reachable ?e2"
    using f(1) by (rule afterQueries_reachable)
  have r3: "reachable ?e3"
    using r2 by (rule reachable.queried)
  have c2: "cacheSize (config ?e2) = Num 2"
    by (simp add: afterQueries_frame f)
  have c3: "cacheSize (config ?e3) = Num 2"
    by (simp add: getCorrections_frame c2)
  have d3: "dictionary ?e3 = dictionary twoSlotEngine"
    by (simp add: getCorrections_frame afterQueries_frame)
  have lacks: "\<not> Map_has (dictionary twoSlotEngine) (toLowerCase ''zzzz'')"
    "\<not> Map_has (dictionary twoSlotEngine) (toLowerCase ''qqqq'')"
    "\<not> Map_has (dictionary twoSlotEngine) (toLowerCase ''xxxx'')"
    by (simp_all add: lower_examples f)
  note t2 = cache_bounded_fifo [OF r2, of 2 "''xxxx''" "''Zzzz''" twoSlots 2 "[''zzzz'', ''qqqq'']" popular]
  note t3 = cache_bounded_fifo [OF r3, of 2 "''xxxx''" "''Zzzz''" twoSlots 2
      "[''zzzz'', ''qqqq'', ''xxxx'']" popular]
  have run2: "cacheSize (defaults twoSlots) = Num 2 \<and> (0 :: real) < 2
        \<and> distinct (map toLowerCase [''zzzz'', ''qqqq''])
        \<and> (\<forall>q \<in> set [''zzzz'', ''qqqq''].
              \<not> Map_has (dictionary (AutoCorrectEngine popular twoSlots)) (toLowerCase q))"
    using lacks by (simp add: f(3) lower_examples twoSlotEngine_def)
  have run3: "cacheSize (defaults twoSlots) = Num 2 \<and> (0 :: real) < 2
        \<and> distinct (map toLowerCase [''zzzz'', ''qqqq'', ''xxxx''])
        \<and> (\<forall>q \<in> set [''zzzz'', ''qqqq'', ''xxxx''].
              \<not> Map_has (dictionary (AutoCorrectEngine popular twoSlots)) (toLowerCase q))"
    using lacks by (simp add: f(3) lower_examples twoSlotEngine_def)
  from t2 run2 have "map fst (cache (afterQueries (AutoCorrectEngine popular twoSlots) [''zzzz'', ''qqqq'']))
      = drop (length [''zzzz'', ''qqqq''] - nat \<lceil>2 :: real\<rceil>) (map toLowerCase [''zzzz'', ''qqqq''])"
    by blast
  then have keys2: "map fst (cache ?e2) = [''zzzz'', ''qqqq'']"
    by (simp add: lower_examples twoSlotEngine_def)
  from t3 run3 have "map fst (cache (afterQueries (AutoCorrectEngine popular twoSlots)
        [''zzzz'', ''qqqq'', ''xxxx'']))
      = drop (length [''zzzz'', ''qqqq'', ''xxxx''] - nat \<lceil>2 :: real\<rceil>)
          (map toLowerCase [''zzzz'', ''qqqq'', ''xxxx''])"
    by blast
  then have keys3: "map fst (cache (afterQueries twoSlotEngine [''zzzz'', ''qqqq'', ''xxxx'']))
      = [''qqqq'', ''xxxx'']"
    by (simp add: lower_examples twoSlotEngine_def)
  from t2 c2 have bound: "int (length (cache ?e2)) \<le> max 1 \<lceil>2 :: real\<rceil>"
    by blast
  have "Map_has (cache ?e2) ''zzzz''"
    by (simp add: Map_has_def keys2)
  then have hit: "Map_get (cache ?e2) (toLowerCase ''Zzzz'') \<noteq> None"
    by (simp add: Map_has_iff lower_examples)
  with t2 have same: "cache ?e3 = cache ?e2"
    by blast
  have "\<not> Map_has (cache ?e3) ''xxxx''"
    by (simp add: Map_has_def same keys2)
  then have miss: "Map_get (cache ?e3) (toLowerCase ''xxxx'') = None
      \<and> \<not> Map_has (dictionary ?e3) (toLowerCase ''xxxx'')"
    using lacks(3) by (simp add: Map_has_iff lower_examples d3)
  with t3 have "cache (snd (getCorrections ?e3 ''xxxx'')) =
           (if js_ge (Num (real (length (cache ?e3)))) (cacheSize (config ?e3))
            then tl (cache ?e3) else cache ?e3)
           @ [(toLowerCase ''xxxx'', fst (getCorrections ?e3 ''xxxx''))]"
    by blast
  moreover have "length (cache ?e3) = 2"
    using arg_cong [OF keys2, of length] by (simp add: same)
  ultimately have "map fst (cache (snd (getCorrections ?e3 ''xxxx'')))
      = tl (map fst (cache ?e3)) @ [''xxxx'']"
    by (simp add: c3 lower_examples map_tl)
  then have evict: "map fst (cache (snd (getCorrections ?e3 ''xxxx''))) = [''qqqq'', ''xxxx'']"
    by (simp add: same keys2)
  show ?thesis
    using r2 c2 bound keys2 hit same r3 miss evict f(3) lacks keys3
    by (simp add: lower_examples)
qed

text \<open>The claim as stated fails for a \<open>cacheSize\<close> of 0: the first query that is not an
  exact match finds the cache full and empty, evicts nothing and stores its entry. It
  also fails for a \<open>cacheSize\<close> of one and a half: the second such query finds a cache of
  one entry, which is not full, and stores a second one.\<close>

theorem cache_bounded_fifo_counterexample:
  "reachable (snd (getCorrections uncachedEngine ''zzzz''))
   \<and> cacheSize (config (snd (getCorrections uncachedEngine ''zzzz''))) = Num 0
   \<and> length (cache (snd (getCorrections uncachedEngine ''zzzz''))) = 1
   \<and> reachable (afterQueries halfSlotEngine [''zzzz'', ''qqqq''])
   \<and> cacheSize (config (afterQueries halfSlotEngine [''zzzz'', ''qqqq''])) = Num (3 / 2)
   \<and> length (cache (afterQueries halfSlotEngine [''zzzz'', ''qqqq''])) = 2"
proof -
  have r: "reachable uncachedEngine"
    unfolding uncachedEngine_def by (rule reachable.constructed)
  have c: "cache uncachedEngine = []"
    by (simp add: uncachedEngine_def AutoCorrectEngine_cache)
  have z: "cacheSize (config uncachedEngine) = Num 0"
    by (simp add: uncachedEngine_def AutoCorrectEngine_config defaults_def zeroCache_def)
  have "\<not> Map_has (dictionary uncachedEngine) ''zzzz''"
    unfolding uncachedEngine_def by (rule popular_engine_lacks) (simp add: zeroCache_def)
  then have "cache (snd (getCorrections uncachedEngine ''zzzz''))
      = [(''zzzz'', fst (getCorrections uncachedEngine ''zzzz''))]"
    using miss_cache [OF reachable_cache_inv [OF r], of "''zzzz''"]
    by (simp add: c z lower_examples Map_get_def)
  then have zero: "reachable (snd (getCorrections uncachedEngine ''zzzz''))
      \<and> cacheSize (config (snd (getCorrections uncachedEngine ''zzzz''))) = Num 0
      \<and> length (cache (snd (getCorrections uncachedEngine ''zzzz''))) = 1"
    using reachable.queried [OF r, of "''zzzz''"] by (simp add: getCorrections_frame z)
  have rh: "reachable halfSlotEngine"
    unfolding halfSlotEngine_def by (rule reachable.constructed)
  have h: "cacheSize (defaults halfSlot) = Num (3 / 2)"
    by (simp add: defaults_def halfSlot_def)
  have "\<forall>q \<in> set [''zzzz'', ''qqqq''].
      \<not> Map_has (dictionary (AutoCorrectEngine popular halfSlot)) (toLowerCase q)"
    using popular_engine_lacks [of halfSlot] by (simp add: lower_examples halfSlot_def)
  then have "map fst (cache (afterQueries (AutoCorrectEngine popular halfSlot) [''zzzz'', ''qqqq'']))
      = drop (length [''zzzz'', ''qqqq''] - nat \<lceil>3 / 2 :: real\<rceil>) (map toLowerCase [''zzzz'', ''qqqq''])"
    using h by (intro fresh_run_keys) (simp_all add: lower_examples)
  then have "length (map fst (cache (afterQueries halfSlotEngine [''zzzz'', ''qqqq'']))) = 2"
    by (simp add: halfSlotEngine_def)
  then have half: "length (cache (afterQueries halfSlotEngine [''zzzz'', ''qqqq''])) = 2"
    by simp
  have "cacheSize (config (afterQueries halfSlotEngine [''zzzz'', ''qqqq''])) = Num (3 / 2)"
    by (simp add: afterQueries_frame halfSlotEngine_def AutoCorrectEngine_config h)
  with zero half afterQueries_reachable [OF rh] show ?thesis
    by blast
qed

end
